theory Spec2Isabelle
  imports Complex_Main "HOL-Library.Char_ord" "HOL-Library.List_Lexorder"
begin

section \<open>Exceptions and fallible, stateful steps\<close>

text \<open>
  Python exceptions are values.  \<open>KeyError c\<close> is what pandas raises when column \<open>c\<close> is
  absent; \<open>OSError\<close> is a failure of the file system; \<open>Raised msg\<close> is any other exception,
  with \<open>str(e) = msg\<close>.
\<close>

datatype exn = KeyError string | OSError string | Raised string

fun str :: "exn \<Rightarrow> string" where
  "str (KeyError c) = [CHR 0x27] @ c @ [CHR 0x27]"
| "str (OSError m) = m"
| "str (Raised m) = m"

text \<open>
  A statement that mutates a state \<open>'s\<close> and may raise returns the exception, if any,
  together with the state reached: mutations made before the raise stay made.
\<close>

type_synonym 's stmt = "'s \<Rightarrow> exn option \<times> 's"

text \<open>A \<open>for\<close> loop whose body may raise: the first exception ends the loop.\<close>

fun for_each :: "('a \<Rightarrow> 's stmt) \<Rightarrow> 'a list \<Rightarrow> 's stmt" where
  "for_each body [] s = (None, s)"
| "for_each body (x # xs) s =
     (case body x s of
        (None, s') \<Rightarrow> for_each body xs s'
      | (Some e, s') \<Rightarrow> (Some e, s'))"

section \<open>The row table\<close>

text \<open>
  A pandas DataFrame read by \<open>pd.read_csv\<close>: the column names, and the rows in file order
  (the index is \<open>0, 1, ..\<close>).  A row gives every column a cell; \<open>NaN\<close> is the missing value
  (\<open>pd.isna\<close>).  A row's value at a name outside \<open>columns\<close> is never read: reading an absent
  column raises \<open>KeyError\<close>.  The type \<open>'v\<close> of cell values is ordered, as \<open>groupby\<close> sorts
  its keys.
\<close>

datatype 'v cell = NaN | Val 'v

type_synonym 'v row = "string \<Rightarrow> 'v cell"

record 'v dataframe =
  columns :: "string list"
  data :: "'v row list"

abbreviation CLUSTER_ID :: string where "CLUSTER_ID \<equiv> ''Cluster ID''"
abbreviation CATEGORY_ID :: string where "CATEGORY_ID \<equiv> ''Category ID''"
abbreviation CATEGORY_LABEL :: string where "CATEGORY_LABEL \<equiv> ''Category Label''"
abbreviation PRODUCT_TITLE :: string where "PRODUCT_TITLE \<equiv> ''Product Title''"

definition isna :: "'v cell \<Rightarrow> bool" where
  "isna c = (c = NaN)"

text \<open>\<open>df.at[idx, col]\<close>, read and written, for \<open>idx\<close> in the index and \<open>col\<close> a column.\<close>

definition at_get :: "'v dataframe \<Rightarrow> nat \<Rightarrow> string \<Rightarrow> 'v cell" where
  "at_get d idx col = (data d ! idx) col"

definition at_put :: "'v dataframe \<Rightarrow> nat \<Rightarrow> string \<Rightarrow> 'v cell \<Rightarrow> 'v dataframe" where
  "at_put d idx col v = d\<lparr>data := (data d)[idx := (data d ! idx)(col := v)]\<rparr>"

text \<open>
  \<open>df.groupby('Cluster ID')\<close>: one group per distinct non-missing key (rows whose key is
  missing belong to no group), the groups in ascending key order, each group's index in
  row order.
\<close>

definition group_keys :: "'v::linorder dataframe \<Rightarrow> 'v list" where
  "group_keys d =
     sort (remdups (List.map_filter (\<lambda>r. case r CLUSTER_ID of Val k \<Rightarrow> Some k | NaN \<Rightarrow> None) (data d)))"

definition group_index :: "'v dataframe \<Rightarrow> 'v \<Rightarrow> nat list" where
  "group_index d k = filter (\<lambda>i. at_get d i CLUSTER_ID = Val k) [0..<length (data d)]"

section \<open>The deterministic fallback (agents/csv\_enrichment\_crew.py)\<close>

text \<open>
  The local variables of \<open>_apply_enrichments_fallback\<close>: the frame being filled and its two
  counters.
\<close>

record 'v fallback_state =
  df :: "'v dataframe"
  enrichment_count :: nat
  rows_processed :: nat

text \<open>
  The body of \<open>for idx in group.index\<close>: both cells are tested on the live frame, and each
  write counts one enrichment, whatever the value written.
\<close>

definition fill_row :: "'v cell \<Rightarrow> 'v cell \<Rightarrow> 'v fallback_state \<Rightarrow> nat \<Rightarrow> 'v fallback_state" where
  "fill_row category_id category_label s idx =
     (let s1 = s\<lparr>rows_processed := rows_processed s + 1\<rparr>;
          s2 = (if isna (at_get (df s1) idx CATEGORY_ID)
                then s1\<lparr>df := at_put (df s1) idx CATEGORY_ID category_id,
                        enrichment_count := enrichment_count s1 + 1\<rparr>
                else s1)
      in if isna (at_get (df s2) idx CATEGORY_LABEL)
         then s2\<lparr>df := at_put (df s2) idx CATEGORY_LABEL category_label,
                 enrichment_count := enrichment_count s2 + 1\<rparr>
         else s2)"

text \<open>
  The body of \<open>for cluster_id, group in cluster_groups\<close>.  The group is a slice of the frame
  as it was when the iteration began (\<open>d0\<close>); \<open>category_rows\<close> are its rows with a label.
\<close>

definition category_rows :: "'v dataframe \<Rightarrow> nat list \<Rightarrow> nat list" where
  "category_rows d0 members = filter (\<lambda>i. \<not> isna (at_get d0 i CATEGORY_LABEL)) members"

definition process_cluster :: "'v dataframe \<Rightarrow> 'v \<Rightarrow> 'v fallback_state stmt" where
  "process_cluster d0 cluster_id s =
     (let members = group_index d0 cluster_id in
      if length members \<le> 1 then (None, s)
      else if CATEGORY_LABEL \<notin> set (columns d0) then (Some (KeyError CATEGORY_LABEL), s)
      else (case category_rows d0 members of
              [] \<Rightarrow> (None, s)
            | j # _ \<Rightarrow>
                if CATEGORY_ID \<notin> set (columns d0) then (Some (KeyError CATEGORY_ID), s)
                else (None, foldl (fill_row (at_get d0 j CATEGORY_ID) (at_get d0 j CATEGORY_LABEL)) s members)))"

text \<open>The first pass: group propagation.\<close>

definition group_propagation :: "'v::linorder fallback_state stmt" where
  "group_propagation s =
     (let d0 = df s in
      if CLUSTER_ID \<notin> set (columns d0) then (Some (KeyError CLUSTER_ID), s)
      else for_each (process_cluster d0) (group_keys d0) s)"

text \<open>
  The external collaborators of the second pass: the search tool, called with the row's
  product title (the row index stands for the call), which returns text or raises; and
  the two regular expressions, each giving the stripped first group of its first match
  as a cell value.
\<close>

record 'v lookup =
  csv_search_tool :: "nat \<Rightarrow> 'v cell \<Rightarrow> exn + string"
  category_id_match :: "string \<Rightarrow> 'v option"
  category_label_match :: "string \<Rightarrow> 'v option"

text \<open>
  The inner \<open>try\<close> of the second pass, for the row \<open>row\<close> that \<open>iterrows\<close> yielded at
  \<open>idx\<close>.  An exception inside it is printed and the row is left as it is then.
\<close>

definition search_and_fill :: "'v lookup \<Rightarrow> string list \<Rightarrow> nat \<Rightarrow> 'v row \<Rightarrow> 'v fallback_state \<Rightarrow> 'v fallback_state" where
  "search_and_fill tool cols idx row s =
     (case csv_search_tool tool idx (row PRODUCT_TITLE) of
        Inl e \<Rightarrow> s
      | Inr search_result \<Rightarrow>
          (let s1 = (case category_id_match tool search_result of
                       Some category_id \<Rightarrow>
                         if isna (row CATEGORY_ID)
                         then s\<lparr>df := at_put (df s) idx CATEGORY_ID (Val category_id),
                                enrichment_count := enrichment_count s + 1\<rparr>
                         else s
                     | None \<Rightarrow> s)
           in case category_label_match tool search_result of
                Some category_label \<Rightarrow>
                  if CATEGORY_LABEL \<notin> set cols then s1
                  else if isna (row CATEGORY_LABEL)
                  then s1\<lparr>df := at_put (df s1) idx CATEGORY_LABEL (Val category_label),
                          enrichment_count := enrichment_count s1 + 1\<rparr>
                  else s1
              | None \<Rightarrow> s1))"

text \<open>
  The body of \<open>for idx, row in df.iterrows()\<close>; \<open>d1\<close> is the frame when the iteration
  began, which the yielded rows are taken from.  The test \<open>isna(ID) or isna(Label)\<close> reads
  the label only when the identifier is present.
\<close>

definition residual_row :: "'v lookup \<Rightarrow> 'v dataframe \<Rightarrow> nat \<Rightarrow> 'v fallback_state stmt" where
  "residual_row tool d1 idx s =
     (let row = data d1 ! idx; cols = columns d1 in
      if CATEGORY_ID \<notin> set cols then (Some (KeyError CATEGORY_ID), s)
      else if \<not> isna (row CATEGORY_ID) \<and> CATEGORY_LABEL \<notin> set cols
      then (Some (KeyError CATEGORY_LABEL), s)
      else if isna (row CATEGORY_ID) \<or> isna (row CATEGORY_LABEL)
      then (let s1 = s\<lparr>rows_processed := rows_processed s + 1\<rparr> in
            if PRODUCT_TITLE \<notin> set cols then (Some (KeyError PRODUCT_TITLE), s1)
            else (None, search_and_fill tool cols idx row s1))
      else (None, s))"

text \<open>The second pass: residual lookup.\<close>

definition residual_lookup :: "'v lookup \<Rightarrow> 'v fallback_state stmt" where
  "residual_lookup tool s =
     (let d1 = df s in for_each (residual_row tool d1) [0..<length (data d1)] s)"

text \<open>
  The outer \<open>try\<close> of \<open>_apply_enrichments_fallback\<close>: the two passes in order, starting from
  the frame read and both counters at zero.  Its \<open>except\<close> prints the exception and goes on
  to save the frame as it is then.
\<close>

definition fallback_passes :: "'v lookup \<Rightarrow> 'v::linorder dataframe \<Rightarrow> exn option \<times> 'v fallback_state" where
  "fallback_passes tool d =
     (case group_propagation \<lparr>df = d, enrichment_count = 0, rows_processed = 0\<rparr> of
        (None, s) \<Rightarrow> residual_lookup tool s
      | (Some e, s) \<Rightarrow> (Some e, s))"

text \<open>The frame that \<open>_apply_enrichments_fallback\<close> then saves.\<close>

definition fallback_table :: "'v lookup \<Rightarrow> 'v::linorder dataframe \<Rightarrow> 'v dataframe" where
  "fallback_table tool d = df (snd (fallback_passes tool d))"


section \<open>The task lifecycle tracker (utils/progress\_tracker.py)\<close>

text \<open>
  The fields of a \<open>ProgressTracker\<close> object.  \<open>progress\<close> is a Python float, taken here as
  a real number; \<open>result\<close> and \<open>error\<close> are \<open>None\<close> until set.  The dictionary that
  \<open>get_state\<close> builds and \<open>_save_state\<close> writes has the same fields and one more,
  \<open>elapsed_time\<close>, the wall-clock time since construction, which is left out.
\<close>

record tracker =
  task_id :: string
  status :: string
  progress :: real
  message :: string
  result :: "string option"
  error :: "string option"

text \<open>
  What the file \<open>data/progress/<task_id>.json\<close> holds: the JSON text of a state, or, after
  a write that failed part-way, a proper prefix of such a text, which \<open>json.load\<close> rejects.
\<close>

datatype file_content = Json tracker | Truncated

text \<open>
  How one write to the file goes: well; or \<open>open(file_path, "w")\<close> raises and the file is
  not touched; or \<open>json.dump\<close> raises after \<open>open\<close> has emptied the file.
\<close>

datatype io_fault = No_fault | Open_fails | Dump_fails

text \<open>Calls to the collaborators outside the process, in the order made.\<close>

datatype call = Kickoff | Read_csv string | To_csv string | Sleep nat

text \<open>An entry of the \<open>active_tasks\<close> dictionary of the web process.\<close>

record task_info =
  input_file :: string
  task_columns :: "string list"
  task_status :: string
  output_file :: "string option"
  task_error :: "string option"

text \<open>
  The state a job runs in: the tracker object it holds; the directory \<open>data/progress\<close> as
  the list of all writes made to it, oldest first, a file's content being the last write
  under its name; the outcomes of the writes still to come (none listed: the write goes
  well); the CSV files by path, each as the frame it parses to; \<open>active_tasks\<close>; and the
  calls made so far.
\<close>

record 'v world =
  the_tracker :: tracker
  progress_files :: "(string \<times> file_content) list"
  pending_faults :: "io_fault list"
  csv_files :: "string \<rightharpoonup> 'v dataframe"
  active_tasks :: "string \<rightharpoonup> task_info"
  calls :: "call list"

definition next_fault :: "'v world \<Rightarrow> io_fault" where
  "next_fault w = (case pending_faults w of [] \<Rightarrow> No_fault | f # _ \<Rightarrow> f)"

definition read_file :: "(string \<times> file_content) list \<Rightarrow> string \<Rightarrow> file_content option" where
  "read_file files name = map_of (rev files) name"

definition save_state :: "'v world stmt" where
  "save_state w =
     (let state = the_tracker w;
          file_path = task_id state;
          w1 = w\<lparr>pending_faults := tl (pending_faults w)\<rparr>
      in case next_fault w of
           Open_fails \<Rightarrow> (Some (OSError ''open''), w1)
         | Dump_fails \<Rightarrow>
             (Some (OSError ''write''), w1\<lparr>progress_files := progress_files w1 @ [(file_path, Truncated)]\<rparr>)
         | No_fault \<Rightarrow>
             (None, w1\<lparr>progress_files := progress_files w1 @ [(file_path, Json state)]\<rparr>))"

text \<open>\<open>ProgressTracker(task_id)\<close>: a new object replaces the one held, and is saved.\<close>

definition tracker_init :: "string \<Rightarrow> 'v world stmt" where
  "tracker_init tid w =
     save_state (w\<lparr>the_tracker :=
        \<lparr>task_id = tid, status = ''initializing'', progress = 0.0,
         message = ''Starting task...'', result = None, error = None\<rparr>\<rparr>)"

definition update :: "real \<Rightarrow> string \<Rightarrow> string \<Rightarrow> 'v world stmt" where
  "update p msg st w =
     save_state (w\<lparr>the_tracker := (the_tracker w)
        \<lparr>progress := min (max p 0.0) 1.0, message := msg, status := st\<rparr>\<rparr>)"

definition complete :: "string \<Rightarrow> 'v world stmt" where
  "complete res w =
     save_state (w\<lparr>the_tracker := (the_tracker w)
        \<lparr>progress := 1.0, status := ''completed'',
         message := ''Task completed successfully'', result := Some res\<rparr>\<rparr>)"

definition fail :: "string \<Rightarrow> 'v world stmt" where
  "fail err w =
     save_state (w\<lparr>the_tracker := (the_tracker w)
        \<lparr>status := ''failed'', message := ''Task failed: '' @ err, error := Some err\<rparr>\<rparr>)"

text \<open>
  \<open>ProgressTracker.get_task_state\<close>: \<open>None\<close> when there is no file, the state when the file
  holds one, and the exception of \<open>json.load\<close> otherwise.
\<close>

definition get_task_state :: "'v world \<Rightarrow> string \<Rightarrow> exn + tracker option" where
  "get_task_state w tid =
     (case read_file (progress_files w) tid of
        None \<Rightarrow> Inr None
      | Some (Json state) \<Rightarrow> Inr (Some state)
      | Some Truncated \<Rightarrow> Inl (Raised ''JSONDecodeError''))"

section \<open>Sequencing statements\<close>

definition seq :: "'s stmt \<Rightarrow> 's stmt \<Rightarrow> 's stmt" where
  "seq f g s = (case f s of (None, s') \<Rightarrow> g s' | (Some e, s') \<Rightarrow> (Some e, s'))"

fun block :: "'s stmt list \<Rightarrow> 's stmt" where
  "block [] s = (None, s)"
| "block (f # fs) s = seq f (block fs) s"

definition try_except :: "'s stmt \<Rightarrow> (exn \<Rightarrow> 's stmt) \<Rightarrow> 's stmt" where
  "try_except body handler s =
     (case body s of (None, s') \<Rightarrow> (None, s') | (Some e, s') \<Rightarrow> handler e s')"

text \<open>A call that only raises or returns.\<close>

definition external :: "exn option \<Rightarrow> 's stmt" where
  "external outcome s = (outcome, s)"

section \<open>The enrichment crew (agents/csv\_enrichment\_crew.py)\<close>

text \<open>
  The fields of a \<open>CSVEnrichmentCrew\<close>.  \<open>progress_tracker\<close> tells whether a tracker was
  passed; the tracker itself is the one object of the state, shared with the runner.
\<close>

record crew =
  source_csv_path :: string
  input_csv_path :: string
  category_columns :: "string list"
  progress_tracker :: bool
  output_csv_path :: string

text \<open>
  What the collaborators of one job do: the random name, the construction of the search
  tool and agents, of the tasks and of the crew, the run of the agents and the file they
  leave at the output path if any, the lookups of the fallback, and the saving of its
  frame.
\<close>

record 'v env =
  uuid4_hex :: string
  create_agents :: "exn option"
  create_tasks :: "exn option"
  create_crew :: "exn option"
  kickoff :: "exn + string"
  agent_output :: "'v dataframe option"
  search :: "'v lookup"
  to_csv_error :: "exn option"

definition basename :: "string \<Rightarrow> string" where
  "basename path = rev (takeWhile (\<lambda>c. c \<noteq> CHR ''/'') (rev path))"

definition new_crew :: "'v env \<Rightarrow> string \<Rightarrow> string \<Rightarrow> string list \<Rightarrow> bool \<Rightarrow> crew" where
  "new_crew E source input cols has_tracker =
     \<lparr>source_csv_path = source, input_csv_path = input, category_columns = cols,
      progress_tracker = has_tracker,
      output_csv_path = ''data/enriched_'' @ uuid4_hex E @ ''_'' @ basename input\<rparr>"

definition update_progress :: "crew \<Rightarrow> real \<Rightarrow> string \<Rightarrow> 'v world stmt" where
  "update_progress self p msg w =
     (if progress_tracker self then update p msg ''processing'' w else (None, w))"

text \<open>\<open>pd.read_csv\<close> and \<open>df.to_csv\<close> on the files of the state.\<close>

definition read_csv :: "'v world \<Rightarrow> string \<Rightarrow> exn + 'v dataframe" where
  "read_csv w path =
     (case csv_files w path of
        None \<Rightarrow> Inl (OSError (''[Errno 2] No such file or directory: '' @ [CHR 0x27] @ path @ [CHR 0x27]))
      | Some d \<Rightarrow> Inr d)"

text \<open>
  \<open>_apply_enrichments_fallback\<close>.  Reading the input and saving the output stand outside
  its \<open>try\<close>: their exceptions leave the method.  The exception of the two passes does not.
\<close>

definition apply_enrichments_fallback :: "'v::linorder env \<Rightarrow> crew \<Rightarrow> 'v world stmt" where
  "apply_enrichments_fallback E self w =
     (let w1 = w\<lparr>calls := calls w @ [Read_csv (input_csv_path self)]\<rparr> in
      case read_csv w1 (input_csv_path self) of
        Inl e \<Rightarrow> (Some e, w1)
      | Inr d \<Rightarrow>
          (let w2 = w1\<lparr>calls := calls w1 @ [To_csv (output_csv_path self)]\<rparr>
           in case to_csv_error E of
                Some e \<Rightarrow> (Some e, w2)
              | None \<Rightarrow>
                  (None, w2\<lparr>csv_files := (csv_files w2)
                     (output_csv_path self \<mapsto> fallback_table (search E) d)\<rparr>)))"

definition crew_kickoff :: "'v env \<Rightarrow> crew \<Rightarrow> 'v world stmt" where
  "crew_kickoff E self w =
     (let w1 = w\<lparr>calls := calls w @ [Kickoff]\<rparr>;
          w2 = (case agent_output E of
                  None \<Rightarrow> w1
                | Some d \<Rightarrow> w1\<lparr>csv_files := (csv_files w1)(output_csv_path self \<mapsto> d)\<rparr>)
      in (case kickoff E of Inl e \<Rightarrow> Some e | Inr crew_result \<Rightarrow> None, w2))"

text \<open>\<open>CSVEnrichmentCrew.run\<close>; it returns \<open>output_csv_path\<close>.\<close>

definition run :: "'v::linorder env \<Rightarrow> crew \<Rightarrow> 'v world stmt" where
  "run E self =
     block [
       update_progress self 0.1 ''Initializing CSV enrichment crew'',
       update_progress self 0.2 ''Creating tasks'',
       external (create_tasks E),
       update_progress self 0.4 ''Creating crew'',
       external (create_crew E),
       update_progress self 0.5 ''Running crew'',
       crew_kickoff E self,
       update_progress self 0.9 ''Finalizing results'',
       (\<lambda>w. if output_csv_path self \<notin> dom (csv_files w)
            then apply_enrichments_fallback E self w
            else (None, w)),
       update_progress self 1.0 ''CSV enrichment complete'']"

section \<open>The job runner and the result boundary (backend/main.py)\<close>

text \<open>
  \<open>active_tasks[task_id][key] = value\<close>, which raises \<open>KeyError\<close> when the task is not in the
  dictionary.
\<close>

definition set_active :: "string \<Rightarrow> (task_info \<Rightarrow> task_info) \<Rightarrow> 'v world stmt" where
  "set_active tid f w =
     (case active_tasks w tid of
        None \<Rightarrow> (Some (KeyError tid), w)
      | Some info \<Rightarrow> (None, w\<lparr>active_tasks := (active_tasks w)(tid \<mapsto> f info)\<rparr>))"

text \<open>The reference table, \<open>data/pricerunner_aggregate.csv\<close> under the package directory.\<close>

abbreviation SOURCE_CSV :: string where "SOURCE_CSV \<equiv> ''data/pricerunner_aggregate.csv''"

text \<open>
  \<open>process_file\<close>.  The tracker is made before the \<open>try\<close>; the handler's own statements are
  not guarded.  The exception returned, if any, is one that leaves the function.
\<close>

definition process_file :: "'v::linorder env \<Rightarrow> string \<Rightarrow> string \<Rightarrow> string list \<Rightarrow> 'v world stmt" where
  "process_file E tid input cols =
     (let self = new_crew E SOURCE_CSV input cols True in
      seq (tracker_init tid)
        (try_except
           (block [
              update 0.05 ''Starting CSV enrichment process...'' ''processing'',
              external (create_agents E),
              run E self,
              complete (output_csv_path self),
              set_active tid (\<lambda>info. info\<lparr>task_status := ''completed''\<rparr>),
              set_active tid (\<lambda>info. info\<lparr>output_file := Some (output_csv_path self)\<rparr>)])
           (\<lambda>e. block [
              fail (str e),
              set_active tid (\<lambda>info. info\<lparr>task_status := ''failed''\<rparr>),
              set_active tid (\<lambda>info. info\<lparr>task_error := Some (str e)\<rparr>)])))"

text \<open>
  What an endpoint answers: an HTTP error, the file, the state as JSON, or an exception
  that nothing handles.
\<close>

datatype response =
  HTTPException nat string | FileResponse string | JSONResponse tracker | Unhandled exn

definition get_task_status :: "'v world \<Rightarrow> string \<Rightarrow> response" where
  "get_task_status w tid =
     (if tid \<notin> dom (active_tasks w) then HTTPException 404 ''Task not found''
      else case get_task_state w tid of
             Inl e \<Rightarrow> Unhandled e
           | Inr None \<Rightarrow> HTTPException 404 ''Task state not found''
           | Inr (Some state) \<Rightarrow> JSONResponse state)"

definition download_file :: "'v world \<Rightarrow> string \<Rightarrow> response" where
  "download_file w tid =
     (if tid \<notin> dom (active_tasks w) then HTTPException 404 ''Task not found''
      else case get_task_state w tid of
             Inl e \<Rightarrow> Unhandled e
           | Inr None \<Rightarrow> HTTPException 404 ''Task state not found''
           | Inr (Some state) \<Rightarrow>
               if status state \<noteq> ''completed''
               then HTTPException 400 ''Task is not completed yet''
               else (case result state of
                       None \<Rightarrow> HTTPException 404 ''Output file not found''
                     | Some output \<Rightarrow>
                         if output = [] \<or> output \<notin> dom (csv_files w)
                         then HTTPException 404 ''Output file not found''
                         else FileResponse output))"


section \<open>The retrying crew (data/csv\_enrichment\_crew.py)\<close>

text \<open>
  This variant of the crew applies the agents' answer itself and retries the agents when
  their provider is overloaded.  Its collaborators: the \<open>n\<close>-th call of \<open>crew.kickoff()\<close>
  (from 0), which raises or returns \<open>result.raw\<close>; the matches \<open>re.findall\<close> finds in that
  text, each a row number, a column and a value; and the saving of the frame.
\<close>

record 'v attempts =
  kickoff_at :: "nat \<Rightarrow> exn + string"
  find_matches :: "string \<Rightarrow> (nat \<times> string \<times> 'v) list"
  save_error :: "exn option"

text \<open>\<open>str(n)\<close> for a natural number, and \<open>sub in text\<close> for strings.\<close>

fun str_nat :: "nat \<Rightarrow> string" where
  "str_nat n =
     (if n < 10 then [char_of (48 + n)] else str_nat (n div 10) @ [char_of (48 + n mod 10)])"

declare str_nat.simps [simp del]

fun contains :: "string \<Rightarrow> string \<Rightarrow> bool" where
  "contains sub [] = (sub = [])"
| "contains sub (c # cs) = (take (length sub) (c # cs) = sub \<or> contains sub cs)"

text \<open>
  \<open>_apply_enrichments\<close>: every match whose row is in range and whose column exists is
  written, whatever the cell held.
\<close>

definition apply_match :: "'v dataframe \<Rightarrow> nat \<times> string \<times> 'v \<Rightarrow> 'v dataframe" where
  "apply_match d m =
     (case m of (row_idx, column, v) \<Rightarrow>
        if row_idx < length (data d) \<and> column \<in> set (columns d)
        then at_put d row_idx column (Val v) else d)"

definition apply_enrichments :: "'v attempts \<Rightarrow> crew \<Rightarrow> string \<Rightarrow> 'v world stmt" where
  "apply_enrichments A self crew_result w =
     (let w1 = w\<lparr>calls := calls w @ [Read_csv (input_csv_path self)]\<rparr> in
      case read_csv w1 (input_csv_path self) of
        Inl e \<Rightarrow> (Some e, w1)
      | Inr d \<Rightarrow>
          (let d' = foldl apply_match d (find_matches A crew_result);
               w2 = w1\<lparr>calls := calls w1 @ [To_csv (output_csv_path self)]\<rparr>
           in case save_error A of
                Some e \<Rightarrow> (Some e, w2)
              | None \<Rightarrow> (None, w2\<lparr>csv_files := (csv_files w2)(output_csv_path self \<mapsto> d')\<rparr>)))"

text \<open>The \<open>try\<close> block of the loop, in the iteration that has seen \<open>retry_count\<close> failures.\<close>

definition attempt :: "'v attempts \<Rightarrow> crew \<Rightarrow> nat \<Rightarrow> 'v world stmt" where
  "attempt A self retry_count =
     seq (update_progress self 0.7 ''Running CrewAI agents to process data...'')
       (\<lambda>w. let w1 = w\<lparr>calls := calls w @ [Kickoff]\<rparr> in
            case kickoff_at A retry_count of
              Inl e \<Rightarrow> (Some e, w1)
            | Inr raw \<Rightarrow>
                block [
                  update_progress self 0.9 ''Applying enrichments to the CSV file...'',
                  apply_enrichments A self raw,
                  update_progress self 1.0 ''CSV enrichment completed successfully''] w1)"

abbreviation max_retries :: nat where "max_retries \<equiv> 3"

text \<open>The two messages of the \<open>except\<close> clause.\<close>

definition retry_message :: "nat \<Rightarrow> nat \<Rightarrow> string" where
  "retry_message wait_time retry_count =
     ''Anthropic API overloaded. Retrying in '' @ str_nat wait_time
     @ '' seconds... (Attempt '' @ str_nat retry_count @ ''/'' @ str_nat max_retries @ '')''"

definition failure_message :: "nat \<Rightarrow> string \<Rightarrow> string" where
  "failure_message retry_count error_message =
     (if retry_count \<ge> max_retries
      then ''Failed after '' @ str_nat max_retries @ '' attempts. Last error: '' @ error_message
      else ''Error: '' @ error_message)"

text \<open>
  The \<open>while\<close> loop of \<open>run\<close>.  It returns the output path, or raises; should the loop
  condition fail, the method ends without a value (\<open>None\<close>).  An exception of the handler's
  own call of the tracker leaves the method.
\<close>

function retry_loop :: "'v attempts \<Rightarrow> crew \<Rightarrow> nat \<Rightarrow> 'v world \<Rightarrow> (exn + string option) \<times> 'v world" where
  "retry_loop A self retry_count w =
     (if retry_count < max_retries then
        (case attempt A self retry_count w of
           (None, w1) \<Rightarrow> (Inr (Some (output_csv_path self)), w1)
         | (Some e, w1) \<Rightarrow>
             (let retry_count' = retry_count + 1;
                  error_message = str e
              in if contains ''overloaded_error'' error_message \<and> retry_count' < max_retries
                 then
                   (let wait_time = 5 * retry_count' in
                    case update_progress self 0.7 (retry_message wait_time retry_count') w1 of
                      (Some e', w2) \<Rightarrow> (Inl e', w2)
                    | (None, w2) \<Rightarrow>
                        retry_loop A self retry_count' (w2\<lparr>calls := calls w2 @ [Sleep wait_time]\<rparr>))
                 else
                   (case update_progress self 0.7 (failure_message retry_count' error_message) w1 of
                      (Some e', w2) \<Rightarrow> (Inl e', w2)
                    | (None, w2) \<Rightarrow> (Inl e, w2))))
      else (Inr None, w))"
  by pat_completeness auto
termination
  by (relation "measure (\<lambda>(A, self, retry_count, w). max_retries - retry_count)") auto

declare retry_loop.simps [simp del]

text \<open>\<open>run\<close> of the retrying crew.\<close>

definition run_with_retry :: "'v env \<Rightarrow> 'v attempts \<Rightarrow> crew \<Rightarrow> 'v world \<Rightarrow> (exn + string option) \<times> 'v world" where
  "run_with_retry E A self w =
     (case block [
             update_progress self 0.1 ''Analyzing input CSV file...'',
             external (create_tasks E),
             update_progress self 0.3 ''Enriching data with missing categories...'',
             external (create_tasks E),
             update_progress self 0.6 ''Verifying data quality...'',
             external (create_tasks E),
             external (create_crew E)] w of
        (Some e, w1) \<Rightarrow> (Inl e, w1)
      | (None, w1) \<Rightarrow> retry_loop A self 0 w1)"

section \<open>Notions used in the proofs\<close>

text \<open>
  \<open>fills_only d d'\<close>: the frame \<open>d'\<close> has the columns and the number of rows of \<open>d\<close>, and
  differs from it at most in category cells that were missing in \<open>d\<close>.
\<close>

definition fills_only :: "'v dataframe \<Rightarrow> 'v dataframe \<Rightarrow> bool" where
  "fills_only d d' \<longleftrightarrow>
     columns d' = columns d \<and> length (data d') = length (data d) \<and>
     (\<forall>i < length (data d). \<forall>c.
        (c \<noteq> CATEGORY_ID \<and> c \<noteq> CATEGORY_LABEL) \<or> \<not> isna (at_get d i c)
          \<longrightarrow> at_get d' i c = at_get d i c)"

text \<open>
  What group propagation makes of a row, given the donor's two cells; and of row \<open>i\<close> of a
  frame, the donor being the first labelled row of the row's group.
\<close>

definition fill :: "'v cell \<Rightarrow> 'v cell \<Rightarrow> 'v row \<Rightarrow> 'v row" where
  "fill cid cl r =
     (\<lambda>c. if c = CATEGORY_LABEL \<and> isna (r CATEGORY_LABEL) then cl
          else if c = CATEGORY_ID \<and> isna (r CATEGORY_ID) then cid
          else r c)"

definition propagate_row :: "'v dataframe \<Rightarrow> nat \<Rightarrow> 'v row" where
  "propagate_row d0 i =
     (case at_get d0 i CLUSTER_ID of
        NaN \<Rightarrow> data d0 ! i
      | Val k \<Rightarrow>
          (let members = group_index d0 k in
           if length members \<le> 1 then data d0 ! i
           else case category_rows d0 members of
                  [] \<Rightarrow> data d0 ! i
                | j # _ \<Rightarrow> fill (at_get d0 j CATEGORY_ID) (at_get d0 j CATEGORY_LABEL) (data d0 ! i)))"

text \<open>
  \<open>hoare P f Q X\<close>: from a state in \<open>P\<close>, the statement \<open>f\<close> ends in \<open>Q\<close> when it returns and
  in \<open>X\<close> when it raises.
\<close>

definition hoare :: "('s \<Rightarrow> bool) \<Rightarrow> 's stmt \<Rightarrow> ('s \<Rightarrow> bool) \<Rightarrow> ('s \<Rightarrow> bool) \<Rightarrow> bool" where
  "hoare P f Q X \<longleftrightarrow> (\<forall>s. P s \<longrightarrow> (case f s of (None, s') \<Rightarrow> Q s' | (Some e, s') \<Rightarrow> X s'))"

text \<open>
  The progress values of the states written under a task's name, in the order written.
  \<open>tracking tid q\<close> holds of a state whose tracker is the one of task \<open>tid\<close>, with a
  progress in \<open>[0, q]\<close> no smaller than any value written, the values written being in
  ascending order.  \<open>fresh_progress\<close> holds before a run: nothing but zero was written.
\<close>

definition progress_values :: "string \<Rightarrow> (string \<times> file_content) list \<Rightarrow> real list" where
  "progress_values tid files =
     List.map_filter (\<lambda>(name, c). case c of Json st \<Rightarrow> if name = tid then Some (progress st) else None
                                   | Truncated \<Rightarrow> None) files"

definition tracking :: "string \<Rightarrow> real \<Rightarrow> 'v world \<Rightarrow> bool" where
  "tracking tid q w \<longleftrightarrow>
     task_id (the_tracker w) = tid \<and> 0 \<le> progress (the_tracker w) \<and> progress (the_tracker w) \<le> q \<and> q \<le> 1 \<and>
     sorted (progress_values tid (progress_files w)) \<and>
     (\<forall>p \<in> set (progress_values tid (progress_files w)). 0 \<le> p \<and> p \<le> progress (the_tracker w))"

definition fresh_progress :: "string \<Rightarrow> 'v world \<Rightarrow> bool" where
  "fresh_progress tid w \<longleftrightarrow> (\<forall>p \<in> set (progress_values tid (progress_files w)). p = 0)"

text \<open>The waits among a list of calls, in order, and the number of runs of the agents.\<close>

definition sleeps :: "call list \<Rightarrow> nat list" where
  "sleeps cs = List.map_filter (\<lambda>c. case c of Sleep n \<Rightarrow> Some n | _ \<Rightarrow> None) cs"

definition kickoffs :: "call list \<Rightarrow> nat" where
  "kickoffs cs = length (filter (\<lambda>c. c = Kickoff) cs)"

text \<open>
  Two frames agree when they have the same columns and number of rows and the same cells
  in the four columns the fallback names; two states of the fallback agree when their
  frames do and their counters are equal.
\<close>

definition agree :: "'v dataframe \<Rightarrow> 'v dataframe \<Rightarrow> bool" where
  "agree d d' \<longleftrightarrow>
     columns d' = columns d \<and> length (data d') = length (data d) \<and>
     (\<forall>i < length (data d).
        at_get d' i CLUSTER_ID = at_get d i CLUSTER_ID \<and>
        at_get d' i CATEGORY_ID = at_get d i CATEGORY_ID \<and>
        at_get d' i CATEGORY_LABEL = at_get d i CATEGORY_LABEL \<and>
        at_get d' i PRODUCT_TITLE = at_get d i PRODUCT_TITLE)"

definition agree_states :: "'v fallback_state \<Rightarrow> 'v fallback_state \<Rightarrow> bool" where
  "agree_states s s' \<longleftrightarrow>
     agree (df s) (df s') \<and> enrichment_count s' = enrichment_count s \<and>
     rows_processed s' = rows_processed s"

text \<open>
  \<open>no_call c\<close> holds of a state in which the calls made are \<open>c\<close>; \<open>at_most_kickoff c\<close> of
  one in which they are \<open>c\<close>, or \<open>c\<close> and one run of the agents.
\<close>

definition no_call :: "call list \<Rightarrow> 'v world \<Rightarrow> bool" where
  "no_call c s \<longleftrightarrow> calls s = c"

definition at_most_kickoff :: "call list \<Rightarrow> 'v world \<Rightarrow> bool" where
  "at_most_kickoff c s \<longleftrightarrow> calls s = c \<or> calls s = c @ [Kickoff]"

section \<open>Concrete inputs\<close>

text \<open>A row with the four columns the fallback looks at; every other column is missing.\<close>

definition mk_row :: "'v cell \<Rightarrow> 'v cell \<Rightarrow> 'v cell \<Rightarrow> 'v cell \<Rightarrow> 'v row" where
  "mk_row title cluster cid label =
     (\<lambda>c. if c = PRODUCT_TITLE then title else if c = CLUSTER_ID then cluster
          else if c = CATEGORY_ID then cid else if c = CATEGORY_LABEL then label else NaN)"

text \<open>
  The scenario of the specification: four rows in the groups A, A, B, B, the first
  labelled shoes and the last hats.  The four identifier cells are left open.
\<close>

definition scenario :: "string cell \<Rightarrow> string cell \<Rightarrow> string cell \<Rightarrow> string cell \<Rightarrow> string dataframe" where
  "scenario id1 id2 id3 id4 =
     \<lparr>columns = [PRODUCT_TITLE, CLUSTER_ID, CATEGORY_ID, CATEGORY_LABEL],
      data = [mk_row (Val ''boot'') (Val ''A'') id1 (Val ''shoes''),
              mk_row (Val ''clog'') (Val ''A'') id2 NaN,
              mk_row (Val ''cap'') (Val ''B'') id3 NaN,
              mk_row (Val ''fez'') (Val ''B'') id4 (Val ''hats'')]\<rparr>"

text \<open>A group of two rows of which one has an identifier and none has a label.\<close>

definition unlabelled_pair :: "string dataframe" where
  "unlabelled_pair =
     \<lparr>columns = [PRODUCT_TITLE, CLUSTER_ID, CATEGORY_ID, CATEGORY_LABEL],
      data = [mk_row (Val ''boot'') (Val ''A'') (Val ''7'') NaN,
              mk_row (Val ''clog'') (Val ''A'') NaN NaN]\<rparr>"

text \<open>A table in which every category cell is filled.\<close>

definition full_table :: "string dataframe" where
  "full_table =
     \<lparr>columns = [PRODUCT_TITLE, CLUSTER_ID, CATEGORY_ID, CATEGORY_LABEL],
      data = [mk_row (Val ''boot'') (Val ''A'') (Val ''1'') (Val ''shoes''),
              mk_row (Val ''fez'') (Val ''B'') (Val ''2'') (Val ''hats'')]\<rparr>"

text \<open>A table that has no column \<open>Cluster ID\<close>.\<close>

definition no_cluster_table :: "string dataframe" where
  "no_cluster_table =
     \<lparr>columns = [PRODUCT_TITLE, CATEGORY_ID, CATEGORY_LABEL],
      data = [mk_row (Val ''boot'') NaN (Val ''1'') (Val ''shoes''),
              mk_row (Val ''cap'') NaN NaN NaN]\<rparr>"

text \<open>A search tool that finds nothing, and agents that return without writing a file.\<close>

definition silent_tool :: "string lookup" where
  "silent_tool =
     \<lparr>csv_search_tool = (\<lambda>idx query. Inr []),
      category_id_match = (\<lambda>text. None),
      category_label_match = (\<lambda>text. None)\<rparr>"

definition quiet_env :: "string env" where
  "quiet_env =
     \<lparr>uuid4_hex = ''u'', create_agents = None, create_tasks = None, create_crew = None,
      kickoff = Inr ''done'', agent_output = None, search = silent_tool, to_csv_error = None\<rparr>"

text \<open>Agents whose run raises.\<close>

definition failing_env :: "string env" where
  "failing_env = quiet_env\<lparr>kickoff := Inl (Raised ''agent stopped'')\<rparr>"

text \<open>
  The state after the submission of task \<open>t1\<close> for the input \<open>data/in.csv\<close>, before the
  tracker has written anything.
\<close>

definition submitted :: "string dataframe \<Rightarrow> string world" where
  "submitted d =
     \<lparr>the_tracker = \<lparr>task_id = ''t1'', status = ''initializing'', progress = 0.0,
         message = ''Starting task...'', result = None, error = None\<rparr>,
      progress_files = [], pending_faults = [],
      csv_files = [''data/in.csv'' \<mapsto> d],
      active_tasks = [''t1'' \<mapsto> \<lparr>input_file = ''data/in.csv'',
         task_columns = [CATEGORY_ID, CATEGORY_LABEL],
         task_status = ''initializing'', output_file = None, task_error = None\<rparr>],
      calls = []\<rparr>"

text \<open>
  The same state once the tracker of \<open>t1\<close> has saved its first record, with the next
  write bound to fail after the file has been opened.
\<close>

definition first_record :: tracker where
  "first_record =
     \<lparr>task_id = ''t1'', status = ''initializing'', progress = 0,
      message = ''Starting task...'', result = None, error = None\<rparr>"

definition saved_once :: "string world" where
  "saved_once =
     (submitted full_table)\<lparr>progress_files := [(''t1'', Json first_record)],
        pending_faults := [Dump_fails]\<rparr>"

text \<open>A provider that is overloaded at every run of the agents, and a crew for \<open>t1\<close>.\<close>

definition overloaded_attempts :: "string attempts" where
  "overloaded_attempts =
     \<lparr>kickoff_at = (\<lambda>n. Inl (Raised ''overloaded_error: busy'')),
      find_matches = (\<lambda>text. []),
      save_error = None\<rparr>"

definition plain_crew :: crew where
  "plain_crew = new_crew quiet_env SOURCE_CSV ''data/in.csv'' [] True"

text \<open>
  The scenario table with a fifth column, \<open>Merchant ID\<close>, holding the same given value
  in every row; the identifiers of rows 2 and 3 are missing.
\<close>

definition with_merchant :: "string \<Rightarrow> string dataframe" where
  "with_merchant m =
     \<lparr>columns = [PRODUCT_TITLE, ''Merchant ID'', CLUSTER_ID, CATEGORY_ID, CATEGORY_LABEL],
      data = map (\<lambda>r. r(''Merchant ID'' := Val m)) (data (scenario (Val ''1'') NaN NaN (Val ''2'')))\<rparr>"

text \<open>
  States after the submission of \<open>t1\<close> in which one write of the tracker is bound to fail
  at \<open>open\<close>: the fifth, and the seventh.
\<close>

definition fifth_write_fails :: "string world" where
  "fifth_write_fails =
     (submitted full_table)\<lparr>pending_faults := [No_fault, No_fault, No_fault, No_fault, Open_fails]\<rparr>"

definition seventh_write_fails :: "string world" where
  "seventh_write_fails =
     (submitted full_table)\<lparr>pending_faults :=
        [No_fault, No_fault, No_fault, No_fault, No_fault, No_fault, Open_fails]\<rparr>"

text \<open>
  A table of one row with the given product title and no category, and a search tool
  that knows the category of boots only.
\<close>

definition one_row :: "string \<Rightarrow> string dataframe" where
  "one_row title =
     \<lparr>columns = [PRODUCT_TITLE, CLUSTER_ID, CATEGORY_ID, CATEGORY_LABEL],
      data = [mk_row (Val title) (Val ''A'') NaN NaN]\<rparr>"

definition title_tool :: "string lookup" where
  "title_tool =
     \<lparr>csv_search_tool = (\<lambda>idx query. if query = Val ''boot'' then Inr ''Category ID: 7'' else Inr []),
      category_id_match = (\<lambda>text. if text = ''Category ID: 7'' then Some ''7'' else None),
      category_label_match = (\<lambda>text. None)\<rparr>"

section \<open>The fallback only fills missing category cells\<close>

lemma fills_only_refl [simp]: "fills_only d d"
  by (simp add: fills_only_def)

lemma fills_only_trans: "fills_only a b \<Longrightarrow> fills_only b c \<Longrightarrow> fills_only a c"
  unfolding fills_only_def by (auto simp: isna_def)

lemma nth_update_any: "xs[idx := y] ! i = (if i = idx \<and> idx < length xs then y else xs ! i)"
  by (cases "idx < length xs") (auto simp: nth_list_update list_update_beyond)

lemma fills_only_put:
  "c = CATEGORY_ID \<or> c = CATEGORY_LABEL \<Longrightarrow> isna (at_get d idx c) \<Longrightarrow> fills_only d (at_put d idx c v)"
  unfolding fills_only_def at_put_def at_get_def
  by (auto simp: nth_update_any isna_def)

lemma fill_row_fills: "fills_only (df s) (df (fill_row cid cl s idx))"
  unfolding fill_row_def Let_def
  by (auto intro!: fills_only_put intro: fills_only_trans)

lemma foldl_fill_row_fills: "fills_only (df s) (df (foldl (fill_row cid cl) s idxs))"
proof (induction idxs arbitrary: s)
  case Nil
  show ?case by simp
next
  case (Cons i idxs)
  show ?case
    using fills_only_trans [OF fill_row_fills Cons.IH] by simp
qed

lemma process_cluster_fills: "fills_only (df s) (df (snd (process_cluster d0 k s)))"
  unfolding process_cluster_def Let_def
  by (auto split: list.splits intro: foldl_fill_row_fills)

lemma for_each_fills:
  assumes "\<And>x s. fills_only (df s) (df (snd (body x s)))"
  shows "fills_only (df s) (df (snd (for_each body xs s)))"
proof (induction xs arbitrary: s)
  case Nil
  show ?case by simp
next
  case (Cons x xs)
  obtain e s1 where b: "body x s = (e, s1)" by (cases "body x s")
  have 1: "fills_only (df s) (df s1)" using assms [of s x] b by simp
  show ?case
  proof (cases e)
    case None
    then show ?thesis using b fills_only_trans [OF 1 Cons.IH [of s1]] by simp
  next
    case (Some a)
    then show ?thesis using b 1 by simp
  qed
qed

lemma group_propagation_fills: "fills_only (df s) (df (snd (group_propagation s)))"
  unfolding group_propagation_def Let_def
  by (auto intro: for_each_fills process_cluster_fills)

lemma at_put_other_row: "i \<noteq> idx \<Longrightarrow> data (at_put d idx c v) ! i = data d ! i"
  by (simp add: at_put_def nth_update_any)

lemma at_put_length [simp]: "length (data (at_put d idx c v)) = length (data d)"
  by (simp add: at_put_def)

lemma search_and_fill_other_rows:
  "i \<noteq> idx \<Longrightarrow> data (df (search_and_fill tool cols idx row s)) ! i = data (df s) ! i"
  unfolding search_and_fill_def Let_def
  by (auto split: sum.splits option.splits simp: at_put_other_row)

lemma search_and_fill_fills:
  assumes "data (df s) ! idx = row"
  shows "fills_only (df s) (df (search_and_fill tool cols idx row s))"
proof -
  have a: "\<And>c. at_get (df s) idx c = row c"
    using assms by (simp add: at_get_def)
  have b: "\<And>v. at_get (at_put (df s) idx CATEGORY_ID v) idx CATEGORY_LABEL = row CATEGORY_LABEL"
    using assms by (simp add: at_get_def at_put_def nth_update_any)
  have two: "fills_only (df s) (at_put (at_put (df s) idx CATEGORY_ID v) idx CATEGORY_LABEL v')"
    if "isna (row CATEGORY_ID)" "isna (row CATEGORY_LABEL)" for v v'
  proof (rule fills_only_trans)
    show "fills_only (df s) (at_put (df s) idx CATEGORY_ID v)"
      using that a by (intro fills_only_put) simp_all
    show "fills_only (at_put (df s) idx CATEGORY_ID v)
            (at_put (at_put (df s) idx CATEGORY_ID v) idx CATEGORY_LABEL v')"
      using that b by (intro fills_only_put) simp_all
  qed
  show ?thesis
    unfolding search_and_fill_def Let_def
    by (auto split: sum.splits option.splits simp: a b two intro!: fills_only_put)
qed

lemma residual_row_other_rows:
  "i \<noteq> idx \<Longrightarrow> data (df (snd (residual_row tool d1 idx s))) ! i = data (df s) ! i"
  unfolding residual_row_def Let_def
  by (auto simp: search_and_fill_other_rows)

lemma residual_row_fills:
  assumes "data (df s) ! idx = data d1 ! idx"
  shows "fills_only (df s) (df (snd (residual_row tool d1 idx s)))"
proof -
  have "fills_only (df s) (df (search_and_fill tool (columns d1) idx (data d1 ! idx)
          (s\<lparr>rows_processed := rows_processed s + 1\<rparr>)))"
    using search_and_fill_fills [of "s\<lparr>rows_processed := rows_processed s + 1\<rparr>" idx "data d1 ! idx"] assms
    by simp
  then show ?thesis
    unfolding residual_row_def Let_def by auto
qed

lemma residual_loop_fills:
  assumes "distinct idxs" and "\<forall>i \<in> set idxs. data (df s) ! i = data d1 ! i"
  shows "fills_only (df s) (df (snd (for_each (residual_row tool d1) idxs s)))"
  using assms
proof (induction idxs arbitrary: s)
  case Nil
  show ?case by simp
next
  case (Cons idx idxs)
  obtain e s1 where b: "residual_row tool d1 idx s = (e, s1)"
    by (cases "residual_row tool d1 idx s")
  have 1: "fills_only (df s) (df s1)"
    using residual_row_fills [of s idx d1 tool] Cons.prems b by simp
  have 2: "\<forall>i \<in> set idxs. data (df s1) ! i = data d1 ! i"
  proof
    fix i assume i: "i \<in> set idxs"
    then have "i \<noteq> idx" using Cons.prems(1) by auto
    then have "data (df s1) ! i = data (df s) ! i"
      using residual_row_other_rows [of i idx tool d1 s] b by simp
    then show "data (df s1) ! i = data d1 ! i" using Cons.prems(2) i by simp
  qed
  have 3: "fills_only (df s1) (df (snd (for_each (residual_row tool d1) idxs s1)))"
    using Cons.IH [OF _ 2] Cons.prems(1) by simp
  show ?case
  proof (cases e)
    case None
    then show ?thesis using b fills_only_trans [OF 1 3] by simp
  next
    case (Some a)
    then show ?thesis using b 1 by simp
  qed
qed

lemma residual_lookup_fills: "fills_only (df s) (df (snd (residual_lookup tool s)))"
  unfolding residual_lookup_def Let_def
  by (rule residual_loop_fills) simp_all

lemma fallback_passes_fills: "fills_only d (df (snd (fallback_passes tool d)))"
proof -
  let ?s0 = "\<lparr>df = d, enrichment_count = 0, rows_processed = 0\<rparr>"
  obtain e s1 where g: "group_propagation ?s0 = (e, s1)"
    by (cases "group_propagation ?s0")
  have 1: "fills_only d (df s1)"
    using group_propagation_fills [of ?s0] g by simp
  show ?thesis
  proof (cases e)
    case None
    then show ?thesis
      using g fills_only_trans [OF 1 residual_lookup_fills [of s1 tool]]
      by (simp add: fallback_passes_def)
  next
    case (Some a)
    then show ?thesis using g 1 by (simp add: fallback_passes_def)
  qed
qed

lemma fills_only_full:
  assumes "fills_only d d'"
    and "\<forall>i < length (data d). \<not> isna (at_get d i CATEGORY_ID) \<and> \<not> isna (at_get d i CATEGORY_LABEL)"
  shows "d' = d"
proof -
  have cell: "\<And>i c. i < length (data d) \<Longrightarrow> at_get d' i c = at_get d i c"
    using assms unfolding fills_only_def by metis
  have "data d' = data d"
  proof (rule nth_equalityI)
    show "length (data d') = length (data d)" using assms(1) by (simp add: fills_only_def)
  next
    fix i assume "i < length (data d')"
    then have "i < length (data d)" using assms(1) by (simp add: fills_only_def)
    then show "data d' ! i = data d ! i"
      using cell [of i] by (auto simp: at_get_def fun_eq_iff)
  qed
  moreover have "columns d' = columns d" using assms(1) by (simp add: fills_only_def)
  ultimately show ?thesis by simp
qed

lemma fill_row_data:
  assumes "idx < length (data (df s))"
  shows "data (df (fill_row cid cl s idx)) = (data (df s))[idx := fill cid cl (data (df s) ! idx)]"
  using assms unfolding fill_row_def Let_def fill_def at_put_def at_get_def
  by (auto simp: fun_eq_iff isna_def intro!: arg_cong [where f = "list_update (data (df s)) idx"]
           simp: list_update_same_conv)

lemma fill_row_columns [simp]: "columns (df (fill_row cid cl s idx)) = columns (df s)"
  unfolding fill_row_def Let_def at_put_def by simp

lemma fill_row_length [simp]: "length (data (df (fill_row cid cl s idx))) = length (data (df s))"
  unfolding fill_row_def Let_def by simp

lemma foldl_fill_row_length [simp]:
  "length (data (df (foldl (fill_row cid cl) s idxs))) = length (data (df s))"
  by (induction idxs arbitrary: s) simp_all

lemma foldl_fill_row_nth:
  assumes "distinct idxs" and "\<forall>j \<in> set idxs. j < length (data (df s))"
    and "i < length (data (df s))"
  shows "data (df (foldl (fill_row cid cl) s idxs)) ! i =
           (if i \<in> set idxs then fill cid cl (data (df s) ! i) else data (df s) ! i)"
  using assms
proof (induction idxs arbitrary: s)
  case Nil
  show ?case by simp
next
  case (Cons idx idxs)
  let ?s1 = "fill_row cid cl s idx"
  have d1: "data (df ?s1) = (data (df s))[idx := fill cid cl (data (df s) ! idx)]"
    using Cons.prems(2) by (simp add: fill_row_data)
  have ih: "data (df (foldl (fill_row cid cl) ?s1 idxs)) ! i =
              (if i \<in> set idxs then fill cid cl (data (df ?s1) ! i) else data (df ?s1) ! i)"
    using Cons.prems by (intro Cons.IH) simp_all
  show ?case
  proof (cases "i = idx")
    case True
    then have "i \<notin> set idxs" using Cons.prems(1) by simp
    then show ?thesis using ih d1 True Cons.prems(3) by simp
  next
    case False
    then show ?thesis using ih d1 by (simp add: nth_update_any)
  qed
qed

lemma group_index_props:
  "distinct (group_index d k)"
  "j \<in> set (group_index d k) \<longleftrightarrow> j < length (data d) \<and> at_get d j CLUSTER_ID = Val k"
  by (auto simp: group_index_def)

lemma process_cluster_nth:
  assumes cols: "CATEGORY_ID \<in> set (columns d0)" "CATEGORY_LABEL \<in> set (columns d0)"
    and len: "length (data (df s)) = length (data d0)"
    and same: "\<forall>i < length (data d0). at_get d0 i CLUSTER_ID = Val k \<longrightarrow> data (df s) ! i = data d0 ! i"
  shows "fst (process_cluster d0 k s) = None"
    and "length (data (df (snd (process_cluster d0 k s)))) = length (data d0)"
    and "i < length (data d0) \<Longrightarrow> data (df (snd (process_cluster d0 k s))) ! i =
           (if at_get d0 i CLUSTER_ID = Val k then propagate_row d0 i else data (df s) ! i)"
proof -
  show "fst (process_cluster d0 k s) = None"
    using cols unfolding process_cluster_def Let_def by (simp split: list.splits)
  show "length (data (df (snd (process_cluster d0 k s)))) = length (data d0)"
    using cols len unfolding process_cluster_def Let_def by (simp split: list.splits)
  assume i: "i < length (data d0)"
  have fold: "data (df (foldl (fill_row cid cl) s (group_index d0 k))) ! i =
           (if at_get d0 i CLUSTER_ID = Val k then fill cid cl (data d0 ! i) else data (df s) ! i)" for cid cl
    using foldl_fill_row_nth [of "group_index d0 k" s i cid cl] len i same
    by (simp add: group_index_props)
  show "data (df (snd (process_cluster d0 k s))) ! i =
           (if at_get d0 i CLUSTER_ID = Val k then propagate_row d0 i else data (df s) ! i)"
    using cols same i unfolding process_cluster_def propagate_row_def Let_def
    by (simp add: fold split: list.splits)
qed

lemma propagation_loop:
  assumes cols: "CATEGORY_ID \<in> set (columns d0)" "CATEGORY_LABEL \<in> set (columns d0)"
    and "distinct ks"
    and "length (data (df s)) = length (data d0)"
    and "\<forall>i < length (data d0). (\<exists>k \<in> set ks. at_get d0 i CLUSTER_ID = Val k) \<longrightarrow> data (df s) ! i = data d0 ! i"
  shows "fst (for_each (process_cluster d0) ks s) = None \<and>
         length (data (df (snd (for_each (process_cluster d0) ks s)))) = length (data d0) \<and>
         (\<forall>i < length (data d0). data (df (snd (for_each (process_cluster d0) ks s))) ! i =
            (if \<exists>k \<in> set ks. at_get d0 i CLUSTER_ID = Val k then propagate_row d0 i else data (df s) ! i))"
  using assms(3-)
proof (induction ks arbitrary: s)
  case Nil
  then show ?case by simp
next
  case (Cons k ks)
  obtain e s1 where b: "process_cluster d0 k s = (e, s1)" by (cases "process_cluster d0 k s")
  have same: "\<forall>i < length (data d0). at_get d0 i CLUSTER_ID = Val k \<longrightarrow> data (df s) ! i = data d0 ! i"
    using Cons.prems(3) by auto
  have e: "e = None" and len1: "length (data (df s1)) = length (data d0)"
    using process_cluster_nth(1,2) [OF cols Cons.prems(2) same] b by auto
  have rows1: "data (df s1) ! i =
           (if at_get d0 i CLUSTER_ID = Val k then propagate_row d0 i else data (df s) ! i)"
    if "i < length (data d0)" for i
    using process_cluster_nth(3) [OF cols Cons.prems(2) same that] b by simp
  have pre: "\<forall>i < length (data d0). (\<exists>k' \<in> set ks. at_get d0 i CLUSTER_ID = Val k') \<longrightarrow> data (df s1) ! i = data d0 ! i"
  proof (intro allI impI)
    fix i assume i: "i < length (data d0)" and "\<exists>k' \<in> set ks. at_get d0 i CLUSTER_ID = Val k'"
    then have "at_get d0 i CLUSTER_ID \<noteq> Val k" using Cons.prems(1) by auto
    then show "data (df s1) ! i = data d0 ! i"
      using rows1 [OF i] Cons.prems(3) i \<open>\<exists>k' \<in> set ks. at_get d0 i CLUSTER_ID = Val k'\<close> by auto
  qed
  have ih: "fst (for_each (process_cluster d0) ks s1) = None \<and>
         length (data (df (snd (for_each (process_cluster d0) ks s1)))) = length (data d0) \<and>
         (\<forall>i < length (data d0). data (df (snd (for_each (process_cluster d0) ks s1))) ! i =
            (if \<exists>k \<in> set ks. at_get d0 i CLUSTER_ID = Val k then propagate_row d0 i else data (df s1) ! i))"
    using Cons.IH [OF _ len1 pre] Cons.prems(1) by simp
  have step: "for_each (process_cluster d0) (k # ks) s = for_each (process_cluster d0) ks s1"
    using b e by simp
  show ?case
    unfolding step using ih rows1 by auto
qed

lemma group_keys_props:
  "distinct (group_keys d)"
  "i < length (data d) \<Longrightarrow> (\<exists>k \<in> set (group_keys d). at_get d i CLUSTER_ID = Val k) \<longleftrightarrow> at_get d i CLUSTER_ID \<noteq> NaN"
proof -
  show "distinct (group_keys d)" by (simp add: group_keys_def)
  assume i: "i < length (data d)"
  show "(\<exists>k \<in> set (group_keys d). at_get d i CLUSTER_ID = Val k) \<longleftrightarrow> at_get d i CLUSTER_ID \<noteq> NaN"
  proof (cases "at_get d i CLUSTER_ID")
    case NaN
    then show ?thesis by simp
  next
    case (Val k)
    have "data d ! i \<in> set (data d)" using i by simp
    then have "k \<in> set (group_keys d)"
      using Val unfolding group_keys_def at_get_def
      by (force simp: List.map_filter_def image_iff)
    then show ?thesis using Val by simp
  qed
qed

lemma group_propagation_rows:
  assumes "CLUSTER_ID \<in> set (columns d)" "CATEGORY_ID \<in> set (columns d)" "CATEGORY_LABEL \<in> set (columns d)"
    and "df s = d"
  shows "fst (group_propagation s) = None"
    and "length (data (df (snd (group_propagation s)))) = length (data d)"
    and "i < length (data d) \<Longrightarrow> data (df (snd (group_propagation s))) ! i = propagate_row d i"
proof -
  have loop: "fst (for_each (process_cluster d) (group_keys d) s) = None \<and>
         length (data (df (snd (for_each (process_cluster d) (group_keys d) s)))) = length (data d) \<and>
         (\<forall>i < length (data d). data (df (snd (for_each (process_cluster d) (group_keys d) s))) ! i =
            (if \<exists>k \<in> set (group_keys d). at_get d i CLUSTER_ID = Val k then propagate_row d i else data (df s) ! i))"
    using assms by (intro propagation_loop) (simp_all add: group_keys_props(1))
  have gp: "group_propagation s = for_each (process_cluster d) (group_keys d) s"
    using assms by (simp add: group_propagation_def)
  show "fst (group_propagation s) = None" using loop gp by simp
  show "length (data (df (snd (group_propagation s)))) = length (data d)" using loop gp by simp
  assume i: "i < length (data d)"
  have "at_get d i CLUSTER_ID = NaN \<Longrightarrow> propagate_row d i = data d ! i"
    by (simp add: propagate_row_def)
  then show "data (df (snd (group_propagation s))) ! i = propagate_row d i"
    using loop gp i group_keys_props(2) [OF i] assms(4) by auto
qed

lemma first_filter:
  assumes "j < n" "R j" "\<forall>m < j. \<not> R m"
  shows "\<exists>rest. filter R [0..<n] = j # rest"
proof -
  have "[0..<n] = [0..<j] @ [j..<n]"
    using assms(1) upt_add_eq_append [of 0 j "n - j"] by simp
  moreover have "[j..<n] = j # [Suc j..<n]"
    using assms(1) by (simp add: upt_conv_Cons)
  moreover have "filter R [0..<j] = []"
    using assms(3) by (simp add: filter_empty_conv)
  ultimately show ?thesis using assms(2) by simp
qed

lemma category_rows_group:
  "category_rows d (group_index d k) =
     filter (\<lambda>i. at_get d i CLUSTER_ID = Val k \<and> \<not> isna (at_get d i CATEGORY_LABEL)) [0..<length (data d)]"
  by (simp add: category_rows_def group_index_def)

lemma two_members:
  assumes "distinct xs" "a \<in> set xs" "b \<in> set xs" "a \<noteq> b"
  shows "1 < length xs"
proof -
  have "card {a, b} \<le> card (set xs)" using assms by (intro card_mono) auto
  then show ?thesis using assms distinct_card [of xs] by simp
qed

lemma only_member:
  assumes "i < length (data d)" "at_get d i CLUSTER_ID = Val k"
    and "\<forall>m < length (data d). m \<noteq> i \<longrightarrow> at_get d m CLUSTER_ID \<noteq> Val k"
  shows "length (group_index d k) \<le> 1"
proof -
  have "set (group_index d k) = {i}" using assms by (auto simp: group_index_props)
  then show ?thesis using distinct_card [OF group_index_props(1), of d k] by simp
qed

lemma fallback_table_fills: "fills_only d (fallback_table tool d)"
  unfolding fallback_table_def by (rule fallback_passes_fills)

section \<open>The tracker's progress never goes back\<close>

lemma hoareI: "(\<And>s. P s \<Longrightarrow> (case f s of (None, s') \<Rightarrow> Q s' | (Some e, s') \<Rightarrow> X s')) \<Longrightarrow> hoare P f Q X"
  by (simp add: hoare_def)

lemma hoareD: "hoare P f Q X \<Longrightarrow> P s \<Longrightarrow> f s = (r, s') \<Longrightarrow> (case r of None \<Rightarrow> Q s' | Some e \<Rightarrow> X s')"
  by (auto simp: hoare_def split: option.splits)

lemma hoare_seq: "hoare P f Q X \<Longrightarrow> hoare Q g R X \<Longrightarrow> hoare P (seq f g) R X"
  unfolding hoare_def seq_def by (fastforce split: prod.splits option.splits)

lemma hoare_block_Nil: "hoare P (block []) P X"
  by (simp add: hoare_def)

lemma hoare_block_Cons: "hoare P f Q X \<Longrightarrow> hoare Q (block fs) R X \<Longrightarrow> hoare P (block (f # fs)) R X"
  unfolding hoare_def seq_def block.simps by (fastforce split: prod.splits option.splits)

lemma hoare_try: "hoare P body Q X' \<Longrightarrow> (\<And>e. hoare X' (handler e) Q X) \<Longrightarrow> hoare P (try_except body handler) Q X"
  unfolding hoare_def try_except_def by (fastforce split: prod.splits option.splits)

lemma hoare_weaken: "hoare P f Q X \<Longrightarrow> (\<And>s. P' s \<Longrightarrow> P s) \<Longrightarrow> (\<And>s. Q s \<Longrightarrow> Q' s) \<Longrightarrow> (\<And>s. X s \<Longrightarrow> X' s) \<Longrightarrow> hoare P' f Q' X'"
  unfolding hoare_def by (fastforce split: prod.splits option.splits)

lemma progress_values_append [simp]:
  "progress_values tid (fs @ gs) = progress_values tid fs @ progress_values tid gs"
  by (simp add: progress_values_def List.map_filter_def)

lemma progress_values_single [simp]:
  "progress_values tid [(name, Json st)] = (if name = tid then [progress st] else [])"
  "progress_values tid [(name, Truncated)] = []"
  by (simp_all add: progress_values_def List.map_filter_def)

lemma tracking_mono: "tracking tid q w \<Longrightarrow> q \<le> q' \<Longrightarrow> q' \<le> 1 \<Longrightarrow> tracking tid q' w"
  by (auto simp: tracking_def)

text \<open>Saving keeps the invariant when the tracker's progress is at least every value saved so far.\<close>

lemma save_state_tracking:
  "hoare (tracking tid q) save_state (tracking tid q) (tracking tid q)"
  apply (rule hoareI)
  apply (auto simp: save_state_def next_fault_def Let_def tracking_def sorted_append split: list.splits io_fault.splits)
  done

lemma save_state_tracking':
  assumes "tracking tid q w" "save_state w = (r, w')"
  shows "tracking tid q w'"
  using hoareD [OF save_state_tracking assms] by (cases r) simp_all

lemma update_tracking:
  assumes "q \<le> p" "p \<le> 1" "0 \<le> p"
  shows "hoare (tracking tid q) (update p msg st) (tracking tid p) (tracking tid 1)"
proof (rule hoareI)
  fix w :: "'a world" assume t: "tracking tid q w"
  let ?w = "w\<lparr>the_tracker := (the_tracker w)\<lparr>progress := min (max p 0.0) 1.0, message := msg, status := st\<rparr>\<rparr>"
  obtain r w' where sv: "save_state ?w = (r, w')" by (cases "save_state ?w")
  have "tracking tid p ?w" using t assms by (auto simp: tracking_def)
  then have "tracking tid p w'" using sv by (rule save_state_tracking')
  then show "case update p msg st w of (None, s') \<Rightarrow> tracking tid p s' | (Some e, s') \<Rightarrow> tracking tid 1 s'"
    using assms sv by (auto simp: update_def split: option.splits intro: tracking_mono)
qed

lemma update_progress_tracking:
  assumes "q \<le> p" "p \<le> 1" "0 \<le> p"
  shows "hoare (tracking tid q) (update_progress self p msg) (tracking tid p) (tracking tid 1)"
proof (rule hoareI)
  fix w :: "'a world" assume t: "tracking tid q w"
  show "case update_progress self p msg w of (None, s') \<Rightarrow> tracking tid p s' | (Some e, s') \<Rightarrow> tracking tid 1 s'"
  proof (cases "progress_tracker self")
    case True
    then have "update_progress self p msg w = update p msg ''processing'' w"
      by (simp add: update_progress_def)
    then show ?thesis
      using update_tracking [OF assms, of tid msg "''processing''"] t
      unfolding hoare_def by fastforce
  next
    case False
    then show ?thesis
      using assms t by (auto simp: update_progress_def intro: tracking_mono)
  qed
qed

lemma untracked:
  assumes "\<And>w r w'. f w = (r, w') \<Longrightarrow> the_tracker w' = the_tracker w \<and> progress_files w' = progress_files w"
  shows "hoare (tracking tid q) f (tracking tid q) (tracking tid 1)"
proof (rule hoareI)
  fix w :: "'a world" assume t: "tracking tid q w"
  obtain r w' where f: "f w = (r, w')" by (cases "f w")
  have "tracking tid q w'" using assms [OF f] t by (simp add: tracking_def)
  moreover have "tracking tid 1 w'" using assms [OF f] t by (auto simp: tracking_def)
  ultimately show "case f w of (None, s') \<Rightarrow> tracking tid q s' | (Some e, s') \<Rightarrow> tracking tid 1 s'"
    using f by (simp split: option.splits)
qed

lemma external_tracking: "hoare (tracking tid q) (external outcome) (tracking tid q) (tracking tid 1)"
  by (rule untracked) (auto simp: external_def)

lemma crew_kickoff_tracking: "hoare (tracking tid q) (crew_kickoff E self) (tracking tid q) (tracking tid 1)"
  by (rule untracked) (auto simp: crew_kickoff_def Let_def split: option.splits sum.splits)

lemma fallback_tracking:
  "hoare (tracking tid q) (apply_enrichments_fallback E self) (tracking tid q) (tracking tid 1)"
  by (rule untracked) (auto simp: apply_enrichments_fallback_def Let_def split: option.splits sum.splits)

lemma maybe_fallback_tracking:
  "hoare (tracking tid q)
     (\<lambda>w. if output_csv_path self \<notin> dom (csv_files w) then apply_enrichments_fallback E self w else (None, w))
     (tracking tid q) (tracking tid 1)"
  by (rule untracked) (auto simp: apply_enrichments_fallback_def Let_def split: option.splits sum.splits if_splits)

lemma set_active_tracking: "hoare (tracking tid q) (set_active t f) (tracking tid q) (tracking tid 1)"
  by (rule untracked) (auto simp: set_active_def split: option.splits)

lemma complete_tracking: "hoare (tracking tid q) (complete res) (tracking tid 1) (tracking tid 1)"
proof (rule hoareI)
  fix w :: "'a world" assume t: "tracking tid q w"
  let ?w = "w\<lparr>the_tracker := (the_tracker w)\<lparr>progress := 1.0, status := ''completed'',
         message := ''Task completed successfully'', result := Some res\<rparr>\<rparr>"
  obtain r w' where sv: "save_state ?w = (r, w')" by (cases "save_state ?w")
  have "tracking tid 1 ?w" using t by (auto simp: tracking_def)
  then have "tracking tid 1 w'" using sv by (rule save_state_tracking')
  then show "case complete res w of (None, s') \<Rightarrow> tracking tid 1 s' | (Some e, s') \<Rightarrow> tracking tid 1 s'"
    using sv by (auto simp: complete_def split: option.splits)
qed

lemma fail_tracking: "hoare (tracking tid q) (fail err) (tracking tid q) (tracking tid q)"
proof (rule hoareI)
  fix w :: "'a world" assume t: "tracking tid q w"
  let ?w = "w\<lparr>the_tracker := (the_tracker w)\<lparr>status := ''failed'', message := ''Task failed: '' @ err, error := Some err\<rparr>\<rparr>"
  obtain r w' where sv: "save_state ?w = (r, w')" by (cases "save_state ?w")
  have "tracking tid q ?w" using t by (auto simp: tracking_def)
  then have "tracking tid q w'" using sv by (rule save_state_tracking')
  then show "case fail err w of (None, s') \<Rightarrow> tracking tid q s' | (Some e, s') \<Rightarrow> tracking tid q s'"
    using sv by (auto simp: fail_def split: option.splits)
qed

lemma sorted_const: "\<forall>x \<in> set xs. x = (c::real) \<Longrightarrow> sorted xs"
  by (induction xs) auto

lemma tracker_init_tracking:
  "hoare (fresh_progress tid) (tracker_init tid) (tracking tid 0) (tracking tid 1)"
proof (rule hoareI)
  fix w :: "'a world" assume h: "fresh_progress tid w"
  let ?w = "w\<lparr>the_tracker := \<lparr>task_id = tid, status = ''initializing'', progress = 0.0,
         message = ''Starting task...'', result = None, error = None\<rparr>\<rparr>"
  obtain r w' where sv: "save_state ?w = (r, w')" by (cases "save_state ?w")
  have "sorted (progress_values tid (progress_files w))"
    using h by (auto simp: fresh_progress_def intro: sorted_const [of _ 0])
  then have "tracking tid 0 ?w" using h by (auto simp: tracking_def fresh_progress_def)
  then have "tracking tid 0 w'" using sv by (rule save_state_tracking')
  then show "case tracker_init tid w of (None, s') \<Rightarrow> tracking tid 0 s' | (Some e, s') \<Rightarrow> tracking tid 1 s'"
    using sv by (auto simp: tracker_init_def split: option.splits intro: tracking_mono)
qed

lemma run_tracking:
  assumes "q \<le> 0.1"
  shows "hoare (tracking tid q) (run E self) (tracking tid 1) (tracking tid 1)"
  unfolding run_def
  apply (rule hoare_block_Cons [OF update_progress_tracking [of q "0.1"]])
  using assms apply simp apply simp apply simp
  apply (rule hoare_block_Cons [OF update_progress_tracking [of "0.1" "0.2"]])
  apply simp apply simp apply simp
  apply (rule hoare_block_Cons [OF external_tracking])
  apply (rule hoare_block_Cons [OF update_progress_tracking [of "0.2" "0.4"]])
  apply simp apply simp apply simp
  apply (rule hoare_block_Cons [OF external_tracking])
  apply (rule hoare_block_Cons [OF update_progress_tracking [of "0.4" "0.5"]])
  apply simp apply simp apply simp
  apply (rule hoare_block_Cons [OF crew_kickoff_tracking])
  apply (rule hoare_block_Cons [OF update_progress_tracking [of "0.5" "0.9"]])
  apply simp apply simp apply simp
  apply (rule hoare_block_Cons [OF maybe_fallback_tracking])
  apply (rule hoare_block_Cons [OF update_progress_tracking [of "0.9" "1.0"]])
  apply simp apply simp apply simp
  apply simp
  apply (rule hoare_block_Nil)
  done

lemma process_file_tracking:
  "hoare (fresh_progress tid) (process_file E tid input cols) (tracking tid 1) (tracking tid 1)"
  unfolding process_file_def Let_def
  apply (rule hoare_seq [OF tracker_init_tracking])
  apply (rule hoare_try [where X' = "tracking tid 1"])
   apply (rule hoare_block_Cons [OF update_tracking [of 0 "0.05"]])
      apply simp apply simp apply simp
   apply (rule hoare_block_Cons [OF external_tracking])
   apply (rule hoare_block_Cons [OF run_tracking])
    apply simp
   apply (rule hoare_block_Cons [OF complete_tracking])
   apply (rule hoare_block_Cons [OF set_active_tracking])
   apply (rule hoare_block_Cons [OF set_active_tracking])
   apply (rule hoare_block_Nil)
  apply (rule hoare_block_Cons [OF fail_tracking])
  apply (rule hoare_block_Cons [OF hoare_weaken [OF set_active_tracking [of tid 1]]])
     apply assumption apply assumption apply assumption
  apply (rule hoare_block_Cons [OF hoare_weaken [OF set_active_tracking [of tid 1]]])
     apply assumption apply assumption apply assumption
  apply (rule hoare_block_Nil)
  done

lemma last_progress:
  "map_of (rev fs) tid = Some (Json st) \<Longrightarrow>
     progress_values tid fs \<noteq> [] \<and> last (progress_values tid fs) = progress st"
proof (induction fs rule: rev_induct)
  case Nil
  then show ?case by simp
next
  case (snoc x fs)
  obtain name c where x: "x = (name, c)" by (cases x)
  show ?case
  proof (cases "name = tid")
    case True
    then show ?thesis using snoc.prems x by simp
  next
    case False
    then have "progress_values tid [x] = []"
      using x by (cases c) simp_all
    then show ?thesis using snoc False x by simp
  qed
qed

lemma sorted_last_max: "sorted xs \<Longrightarrow> x \<in> set xs \<Longrightarrow> x \<le> (last xs :: real)"
  by (induction xs) (auto split: if_splits)

lemma status_read:
  "get_task_status (w\<lparr>progress_files := fs\<rparr>) tid = JSONResponse st \<Longrightarrow> map_of (rev fs) tid = Some (Json st)"
  by (auto simp: get_task_status_def get_task_state_def read_file_def
           split: if_splits sum.splits option.splits file_content.splits)

lemma progress_values_take:
  "progress_values tid fs = progress_values tid (take n fs) @ progress_values tid (drop n fs)"
  using progress_values_append [of tid "take n fs" "drop n fs"] by simp

section \<open>Running a job when every write of the tracker goes well\<close>

lemma save_state_ok:
  "pending_faults w = [] \<Longrightarrow>
   save_state w =
     (None, w\<lparr>progress_files := progress_files w @ [(task_id (the_tracker w), Json (the_tracker w))]\<rparr>)"
  by (simp add: save_state_def next_fault_def Let_def)

lemmas runner_eval =
  seq_def try_except_def external_def run_def tracker_init_def update_def complete_def fail_def
  save_state_ok update_progress_def crew_kickoff_def apply_enrichments_fallback_def read_csv_def
  set_active_def

lemmas crew_eval = new_crew_def basename_def

lemma new_crew_fields [simp]:
  "input_csv_path (new_crew E source input cols has_tracker) = input"
  "progress_tracker (new_crew E source input cols has_tracker) = has_tracker"
  by (simp_all add: new_crew_def)

lemmas status_eval = get_task_status_def get_task_state_def read_file_def

lemma quiet_run_files:
  "progress_files (snd (process_file quiet_env ''t1'' ''data/in.csv'' cols (submitted d))) =
     map (\<lambda>(p, msg, st, res). (''t1'', Json \<lparr>task_id = ''t1'', status = st, progress = p,
                                  message = msg, result = res, error = None\<rparr>))
       [(0, ''Starting task...'', ''initializing'', None),
        (0.05, ''Starting CSV enrichment process...'', ''processing'', None),
        (0.1, ''Initializing CSV enrichment crew'', ''processing'', None),
        (0.2, ''Creating tasks'', ''processing'', None),
        (0.4, ''Creating crew'', ''processing'', None),
        (0.5, ''Running crew'', ''processing'', None),
        (0.9, ''Finalizing results'', ''processing'', None),
        (1, ''CSV enrichment complete'', ''processing'', None),
        (1, ''Task completed successfully'', ''completed'', Some ''data/enriched_u_in.csv'')]"
  unfolding process_file_def Let_def
  by (simp add: runner_eval crew_eval quiet_env_def submitted_def)

lemma quiet_run_active:
  "''t1'' \<in> dom (active_tasks (snd (process_file quiet_env ''t1'' ''data/in.csv'' cols (submitted d))))"
  unfolding process_file_def Let_def
  by (simp add: runner_eval crew_eval quiet_env_def submitted_def)

text \<open>Running a job when the outcome of each write is given.\<close>

lemma save_state_goes_well:
  "next_fault w = No_fault \<Longrightarrow>
   save_state w =
     (None, w\<lparr>pending_faults := tl (pending_faults w),
              progress_files := progress_files w @ [(task_id (the_tracker w), Json (the_tracker w))]\<rparr>)"
  by (simp add: save_state_def Let_def)

lemma save_state_open:
  "next_fault w = Open_fails \<Longrightarrow>
   save_state w = (Some (OSError ''open''), w\<lparr>pending_faults := tl (pending_faults w)\<rparr>)"
  by (simp add: save_state_def Let_def)

lemmas faulty_eval =
  seq_def try_except_def external_def run_def tracker_init_def update_def complete_def fail_def
  save_state_goes_well save_state_open next_fault_def update_progress_def crew_kickoff_def
  apply_enrichments_fallback_def read_csv_def set_active_def

section \<open>The retry loop\<close>

lemma sleeps_append [simp]: "sleeps (xs @ ys) = sleeps xs @ sleeps ys"
  by (simp add: sleeps_def List.map_filter_def)

lemma sleeps_simps [simp]:
  "sleeps [] = []" "sleeps (Kickoff # cs) = sleeps cs" "sleeps (Read_csv p # cs) = sleeps cs"
  "sleeps (To_csv p # cs) = sleeps cs" "sleeps (Sleep n # cs) = n # sleeps cs"
  by (simp_all add: sleeps_def List.map_filter_def)

lemma kickoffs_append [simp]: "kickoffs (xs @ ys) = kickoffs xs + kickoffs ys"
  by (simp add: kickoffs_def)

lemma kickoffs_simps [simp]:
  "kickoffs [] = 0" "kickoffs (Kickoff # cs) = Suc (kickoffs cs)" "kickoffs (Read_csv p # cs) = kickoffs cs"
  "kickoffs (To_csv p # cs) = kickoffs cs" "kickoffs (Sleep n # cs) = kickoffs cs"
  by (simp_all add: kickoffs_def)

lemma save_state_calls [simp]: "calls (snd (save_state w)) = calls w"
  by (simp add: save_state_def Let_def split: io_fault.splits)

lemma update_progress_calls [simp]: "calls (snd (update_progress self p msg w)) = calls w"
  by (simp add: update_progress_def update_def)

lemma update_progress_calls': "update_progress self p msg w = (r, w') \<Longrightarrow> calls w' = calls w"
  using update_progress_calls [of self p msg w] by simp

lemma apply_enrichments_calls:
  "apply_enrichments A self raw w = (r, w') \<Longrightarrow>
     sleeps (calls w') = sleeps (calls w) \<and> kickoffs (calls w') = kickoffs (calls w)"
  by (auto simp: apply_enrichments_def Let_def split: sum.splits option.splits)

lemma attempt_calls:
  assumes "attempt A self c w = (r, w')"
  shows "sleeps (calls w') = sleeps (calls w) \<and> kickoffs (calls w') \<le> kickoffs (calls w) + 1"
proof -
  obtain r0 w0 where u0: "update_progress self 0.7 ''Running CrewAI agents to process data...'' w = (r0, w0)"
    by (cases "update_progress self 0.7 ''Running CrewAI agents to process data...'' w")
  have c0: "calls w0 = calls w" using update_progress_calls' [OF u0] .
  show ?thesis
  proof (cases r0)
    case (Some e)
    then show ?thesis using assms u0 c0 by (simp add: attempt_def seq_def)
  next
    case None
    show ?thesis
    proof (cases "kickoff_at A c")
      case (Inl e)
      then show ?thesis using assms u0 c0 None by (auto simp: attempt_def seq_def Let_def)
    next
      case (Inr raw)
      let ?w1 = "w0\<lparr>calls := calls w0 @ [Kickoff]\<rparr>"
      obtain r1 w1 where u1: "update_progress self 0.9 ''Applying enrichments to the CSV file...'' ?w1 = (r1, w1)"
        by (cases "update_progress self 0.9 ''Applying enrichments to the CSV file...'' ?w1")
      have c1: "calls w1 = calls w @ [Kickoff]" using update_progress_calls' [OF u1] c0 by simp
      show ?thesis
      proof (cases r1)
        case (Some e)
        then show ?thesis using assms u0 None Inr u1 c1 by (simp add: attempt_def seq_def Let_def)
      next
        case None1: None
        obtain r2 w2 where u2: "apply_enrichments A self raw w1 = (r2, w2)"
          by (cases "apply_enrichments A self raw w1")
        have c2: "sleeps (calls w2) = sleeps (calls w) \<and> kickoffs (calls w2) = kickoffs (calls w) + 1"
          using apply_enrichments_calls [OF u2] c1 by simp
        show ?thesis
        proof (cases r2)
          case (Some e)
          then show ?thesis using assms u0 None Inr u1 None1 u2 c2 by (simp add: attempt_def seq_def Let_def)
        next
          case None2: None
          obtain r3 w3 where u3: "update_progress self 1.0 ''CSV enrichment completed successfully'' w2 = (r3, w3)"
            by (cases "update_progress self 1.0 ''CSV enrichment completed successfully'' w2")
          have "calls w3 = calls w2" using update_progress_calls' [OF u3] .
          then show ?thesis using assms u0 None Inr u1 None1 u2 None2 u3 c2
            by (auto simp add: attempt_def seq_def Let_def split: option.splits)
        qed
      qed
    qed
  qed
qed

lemma retry_loop_end: "\<not> c < max_retries \<Longrightarrow> retry_loop A self c w = (Inr None, w)"
  by (simp add: retry_loop.simps [of A self c w])

lemma retry_loop_done:
  "c < max_retries \<Longrightarrow> attempt A self c w = (None, w1) \<Longrightarrow>
     retry_loop A self c w = (Inr (Some (output_csv_path self)), w1)"
  by (simp add: retry_loop.simps [of A self c w])

lemma retry_loop_raise:
  "c < max_retries \<Longrightarrow> attempt A self c w = (Some e, w1) \<Longrightarrow>
   \<not> (contains ''overloaded_error'' (str e) \<and> c + 1 < max_retries) \<Longrightarrow>
   update_progress self 0.7 (failure_message (c + 1) (str e)) w1 = (r2, w2) \<Longrightarrow>
     retry_loop A self c w = (case r2 of Some e' \<Rightarrow> Inl e' | None \<Rightarrow> Inl e, w2)"
  by (auto simp add: retry_loop.simps [of A self c w] Let_def split: option.splits)

lemma retry_loop_handler_raises:
  "c < max_retries \<Longrightarrow> attempt A self c w = (Some e, w1) \<Longrightarrow>
   contains ''overloaded_error'' (str e) \<Longrightarrow> c + 1 < max_retries \<Longrightarrow>
   update_progress self 0.7 (retry_message (5 * (c + 1)) (c + 1)) w1 = (Some e', w2) \<Longrightarrow>
     retry_loop A self c w = (Inl e', w2)"
  by (simp add: retry_loop.simps [of A self c w] Let_def)

lemma retry_loop_again:
  "c < max_retries \<Longrightarrow> attempt A self c w = (Some e, w1) \<Longrightarrow>
   contains ''overloaded_error'' (str e) \<Longrightarrow> c + 1 < max_retries \<Longrightarrow>
   update_progress self 0.7 (retry_message (5 * (c + 1)) (c + 1)) w1 = (None, w2) \<Longrightarrow>
     retry_loop A self c w =
       retry_loop A self (c + 1) (w2\<lparr>calls := calls w2 @ [Sleep (5 * (c + 1))]\<rparr>)"
  by (simp add: retry_loop.simps [of A self c w] Let_def)

lemma retry_loop_calls:
  "\<exists>j. (j = 0 \<or> c + j < max_retries) \<and>
       sleeps (calls (snd (retry_loop A self c w))) = sleeps (calls w) @ map (\<lambda>k. 5 * k) [c + 1 ..< c + 1 + j] \<and>
       kickoffs (calls (snd (retry_loop A self c w))) \<le> kickoffs (calls w) + (max_retries - c)"
proof (induction A self c w rule: retry_loop.induct)
  case (1 A self c w)
  show ?case
  proof (cases "c < max_retries")
    case False
    then show ?thesis by (simp add: retry_loop_end)
  next
    case True
    obtain r w1 where a: "attempt A self c w = (r, w1)" by (cases "attempt A self c w")
    have ac: "sleeps (calls w1) = sleeps (calls w)" "kickoffs (calls w1) \<le> kickoffs (calls w) + 1"
      using attempt_calls [OF a] by simp_all
    show ?thesis
    proof (cases r)
      case None
      then have "retry_loop A self c w = (Inr (Some (output_csv_path self)), w1)"
        using True a by (simp add: retry_loop_done)
      then show ?thesis using ac True by (intro exI [of _ 0]) simp
    next
      case (Some e)
      show ?thesis
      proof (cases "contains ''overloaded_error'' (str e) \<and> c + 1 < max_retries")
        case False
        obtain r2 w2 where u: "update_progress self 0.7 (failure_message (c + 1) (str e)) w1 = (r2, w2)"
          by (cases "update_progress self 0.7 (failure_message (c + 1) (str e)) w1")
        have "calls w2 = calls w1" using update_progress_calls' [OF u] .
        moreover have "snd (retry_loop A self c w) = w2"
          using retry_loop_raise [OF True _ False u] a Some by simp
        ultimately show ?thesis using ac True by (intro exI [of _ 0]) simp
      next
        case retry: True
        obtain r2 w2 where u: "update_progress self 0.7 (retry_message (5 * (c + 1)) (c + 1)) w1 = (r2, w2)"
          by (cases "update_progress self 0.7 (retry_message (5 * (c + 1)) (c + 1)) w1")
        have c2: "calls w2 = calls w1" using update_progress_calls' [OF u] .
        show ?thesis
        proof (cases r2)
          case (Some e')
          then have "snd (retry_loop A self c w) = w2"
            using retry_loop_handler_raises [OF True _ _ _ _, of A self w e w1 e' w2] a \<open>r = Some e\<close> retry u
            by simp
          then show ?thesis using ac c2 True by (intro exI [of _ 0]) simp
        next
          case None
          let ?w3 = "w2\<lparr>calls := calls w2 @ [Sleep (5 * (c + 1))]\<rparr>"
          have step: "retry_loop A self c w = retry_loop A self (c + 1) ?w3"
            using retry_loop_again [OF True _ _ _ _, of A self w e w1 w2] a \<open>r = Some e\<close> retry u None
            by simp
          obtain j where j: "j = 0 \<or> c + 1 + j < max_retries"
            "sleeps (calls (snd (retry_loop A self (c + 1) ?w3))) =
               sleeps (calls ?w3) @ map (\<lambda>k. 5 * k) [c + 1 + 1 ..< c + 1 + 1 + j]"
            "kickoffs (calls (snd (retry_loop A self (c + 1) ?w3))) \<le> kickoffs (calls ?w3) + (max_retries - (c + 1))"
            using "1.IH" [OF True a [symmetric] \<open>r = Some e\<close> refl refl retry refl u [symmetric] None]
            by auto
          have "[c + 1 ..< c + 1 + (j + 1)] = (c + 1) # [c + 1 + 1 ..< c + 1 + 1 + j]"
            by (simp add: upt_conv_Cons)
          then have "sleeps (calls (snd (retry_loop A self c w))) =
              sleeps (calls w) @ map (\<lambda>k. 5 * k) [c + 1 ..< c + 1 + (j + 1)]"
            using j(2) step ac c2 by simp
          moreover have "kickoffs (calls (snd (retry_loop A self c w))) \<le> kickoffs (calls w) + (max_retries - c)"
            using j(3) step ac c2 True by simp
          moreover have "j + 1 = 0 \<or> c + (j + 1) < max_retries"
            using j(1) retry by auto
          ultimately show ?thesis by blast
        qed
      qed
    qed
  qed
qed

lemma update_progress_ok:
  assumes "pending_faults w = []"
  shows "\<exists>w'. update_progress self p msg w = (None, w') \<and> pending_faults w' = [] \<and>
              calls w' = calls w \<and> csv_files w' = csv_files w"
  using assms by (simp add: update_progress_def update_def save_state_ok)

lemma prelude_calls:
  assumes "block [update_progress self p1 m1, external x1, update_progress self p2 m2, external x2,
                  update_progress self p3 m3, external x3, external x4] w = (r, w1)"
  shows "calls w1 = calls w"
  using assms
  by (auto simp: seq_def external_def split: prod.splits option.splits dest!: update_progress_calls')

lemma prelude_ok:
  assumes "pending_faults w = []" "x = None" "y = None"
  shows "\<exists>w1. block [update_progress self p1 m1, external x, update_progress self p2 m2, external x,
                  update_progress self p3 m3, external x, external y] w = (None, w1) \<and>
              pending_faults w1 = [] \<and> calls w1 = calls w \<and> csv_files w1 = csv_files w"
  using assms by (simp add: seq_def external_def update_progress_def update_def save_state_ok)

lemma attempt_raises:
  assumes "pending_faults w = []" "kickoff_at A c = Inl e"
  shows "\<exists>w'. attempt A self c w = (Some e, w') \<and> pending_faults w' = [] \<and>
              calls w' = calls w @ [Kickoff] \<and> csv_files w' = csv_files w"
  using assms by (simp add: attempt_def seq_def update_progress_def update_def save_state_ok Let_def)

lemma attempt_returns:
  assumes "pending_faults w = []" "kickoff_at A c = Inr raw"
    "csv_files w (input_csv_path self) = Some d" "save_error A = None"
  shows "\<exists>w'. attempt A self c w = (None, w') \<and>
              calls w' = calls w @ [Kickoff, Read_csv (input_csv_path self), To_csv (output_csv_path self)]"
  using assms
  by (simp add: attempt_def seq_def update_progress_def update_def save_state_ok Let_def
                apply_enrichments_def read_csv_def)

lemma run_with_retry_unfold:
  "run_with_retry E A self w =
     (case block [
             update_progress self 0.1 ''Analyzing input CSV file...'',
             external (create_tasks E),
             update_progress self 0.3 ''Enriching data with missing categories...'',
             external (create_tasks E),
             update_progress self 0.6 ''Verifying data quality...'',
             external (create_tasks E),
             external (create_crew E)] w of
        (Some e, w1) \<Rightarrow> (Inl e, w1)
      | (None, w1) \<Rightarrow> retry_loop A self 0 w1)"
  by (simp only: run_with_retry_def)

lemma run_with_retry_calls:
  "\<exists>j < max_retries.
      sleeps (calls (snd (run_with_retry E A self w))) = sleeps (calls w) @ map (\<lambda>k. 5 * k) [1 ..< j + 1] \<and>
      kickoffs (calls (snd (run_with_retry E A self w))) \<le> kickoffs (calls w) + max_retries"
proof -
  let ?pre = "block [
             update_progress self 0.1 ''Analyzing input CSV file...'',
             external (create_tasks E),
             update_progress self 0.3 ''Enriching data with missing categories...'',
             external (create_tasks E),
             update_progress self 0.6 ''Verifying data quality...'',
             external (create_tasks E),
             external (create_crew E)]"
  obtain r w1 where pre: "?pre w = (r, w1)" by (cases "?pre w")
  have c1: "calls w1 = calls w" using prelude_calls [OF pre] .
  show ?thesis
  proof (cases r)
    case (Some e)
    then have "snd (run_with_retry E A self w) = w1"
      using pre by (simp add: run_with_retry_unfold)
    then show ?thesis using c1 by (intro exI [of _ 0]) simp
  next
    case None
    then have eq: "run_with_retry E A self w = retry_loop A self 0 w1"
      using pre by (simp add: run_with_retry_unfold)
    obtain j where j: "j = 0 \<or> 0 + j < max_retries"
      "sleeps (calls (snd (retry_loop A self 0 w1))) = sleeps (calls w1) @ map (\<lambda>k. 5 * k) [0 + 1 ..< 0 + 1 + j]"
      "kickoffs (calls (snd (retry_loop A self 0 w1))) \<le> kickoffs (calls w1) + (max_retries - 0)"
      using retry_loop_calls [of 0 A self w1] by blast
    have "j < max_retries" using j(1) by auto
    moreover have "[0 + 1 ..< 0 + 1 + j] = [1 ..< j + 1]" by simp
    ultimately show ?thesis using j(2,3) eq c1 by (intro exI [of _ j]) simp
  qed
qed

lemma run_with_retry_start:
  assumes "pending_faults w = []" "create_tasks E = None" "create_crew E = None"
  shows "\<exists>w1. run_with_retry E A self w = retry_loop A self 0 w1 \<and> pending_faults w1 = [] \<and>
               calls w1 = calls w \<and> csv_files w1 = csv_files w"
proof -
  obtain w1 where "block [
             update_progress self 0.1 ''Analyzing input CSV file...'',
             external (create_tasks E),
             update_progress self 0.3 ''Enriching data with missing categories...'',
             external (create_tasks E),
             update_progress self 0.6 ''Verifying data quality...'',
             external (create_tasks E),
             external (create_crew E)] w = (None, w1)"
      "pending_faults w1 = []" "calls w1 = calls w" "csv_files w1 = csv_files w"
    using prelude_ok [OF assms] by blast
  then show ?thesis by (intro exI [of _ w1]) (simp add: run_with_retry_unfold)
qed

lemma retry_step:
  assumes "pending_faults w = []" "kickoff_at A c = Inl e" "contains ''overloaded_error'' (str e)"
    "c' = c + 1" "c' < max_retries" "n = 5 * c'"
  shows "\<exists>w'. retry_loop A self c w = retry_loop A self c' w' \<and> pending_faults w' = [] \<and>
              calls w' = calls w @ [Kickoff, Sleep n] \<and> csv_files w' = csv_files w"
proof -
  obtain w1 where a: "attempt A self c w = (Some e, w1)" "pending_faults w1 = []"
      "calls w1 = calls w @ [Kickoff]" "csv_files w1 = csv_files w"
    using attempt_raises [OF assms(1,2)] by blast
  obtain w2 where u: "update_progress self 0.7 (retry_message (5 * (c + 1)) (c + 1)) w1 = (None, w2)"
      "pending_faults w2 = []" "calls w2 = calls w1" "csv_files w2 = csv_files w1"
    using update_progress_ok [OF a(2)] by blast
  have lt: "c < max_retries" "c + 1 < max_retries" using assms(4,5) by simp_all
  have "retry_loop A self c w = retry_loop A self (c + 1) (w2\<lparr>calls := calls w2 @ [Sleep (5 * (c + 1))]\<rparr>)"
    using retry_loop_again [OF lt(1) a(1) assms(3) lt(2) u(1)] .
  then show ?thesis
    using a u assms(4,6) by (intro exI [of _ "w2\<lparr>calls := calls w2 @ [Sleep (5 * (c + 1))]\<rparr>"]) simp
qed

lemma raise_step:
  assumes "pending_faults w = []" "kickoff_at A c = Inl e" "c < max_retries"
    "\<not> (contains ''overloaded_error'' (str e) \<and> c + 1 < max_retries)"
  shows "\<exists>w'. retry_loop A self c w = (Inl e, w') \<and> calls w' = calls w @ [Kickoff]"
proof -
  obtain w1 where a: "attempt A self c w = (Some e, w1)" "pending_faults w1 = []"
      "calls w1 = calls w @ [Kickoff]" "csv_files w1 = csv_files w"
    using attempt_raises [OF assms(1,2)] by blast
  obtain w2 where u: "update_progress self 0.7 (failure_message (c + 1) (str e)) w1 = (None, w2)"
      "pending_faults w2 = []" "calls w2 = calls w1" "csv_files w2 = csv_files w1"
    using update_progress_ok [OF a(2)] by blast
  have "retry_loop A self c w = (Inl e, w2)"
    using retry_loop_raise [OF assms(3) a(1) assms(4) u(1)] by simp
  then show ?thesis using a u by (intro exI [of _ w2]) simp
qed

section \<open>The calls a job makes when its agents raise\<close>

lemma hoare_false: "hoare (\<lambda>s. False) f Q X"
  by (simp add: hoare_def)

lemma kept:
  assumes "\<And>w. calls (snd (f w)) = calls w"
  shows "hoare (no_call c) f (no_call c) (at_most_kickoff c)"
    and "hoare (at_most_kickoff c) f (at_most_kickoff c) (at_most_kickoff c)"
proof -
  have a: "calls w' = calls w" if "f w = (r, w')" for w r w'
    using assms [of w] that by simp
  show "hoare (no_call c) f (no_call c) (at_most_kickoff c)"
    by (rule hoareI) (auto simp: no_call_def at_most_kickoff_def split: prod.splits option.splits dest: a)
  show "hoare (at_most_kickoff c) f (at_most_kickoff c) (at_most_kickoff c)"
    by (rule hoareI) (auto simp: at_most_kickoff_def split: prod.splits option.splits dest: a)
qed

lemma update_calls [simp]: "calls (snd (update p msg st w)) = calls w"
  by (simp add: update_def)

lemma tracker_init_calls [simp]: "calls (snd (tracker_init tid w)) = calls w"
  by (simp add: tracker_init_def)

lemma complete_calls [simp]: "calls (snd (complete res w)) = calls w"
  by (simp add: complete_def)

lemma fail_calls [simp]: "calls (snd (fail err w)) = calls w"
  by (simp add: fail_def)

lemma set_active_calls [simp]: "calls (snd (set_active tid f w)) = calls w"
  by (simp add: set_active_def split: option.splits)

lemma external_calls [simp]: "calls (snd (external outcome w)) = calls w"
  by (simp add: external_def)

lemma external_raises:
  "outcome = Some e \<Longrightarrow> hoare (no_call c) (external outcome) (\<lambda>s. False) (at_most_kickoff c)"
  by (rule hoareI) (simp add: external_def no_call_def at_most_kickoff_def)

lemma kickoff_raises:
  "kickoff E = Inl e \<Longrightarrow> hoare (no_call c) (crew_kickoff E self) (\<lambda>s. False) (at_most_kickoff c)"
  by (rule hoareI)
    (simp add: crew_kickoff_def Let_def no_call_def at_most_kickoff_def split: option.splits)

lemma run_raises:
  assumes "create_tasks E = Some e \<or> (create_tasks E = None \<and> create_crew E = Some e) \<or>
           (create_tasks E = None \<and> create_crew E = None \<and> kickoff E = Inl e)"
  shows "hoare (no_call c) (run E self) (\<lambda>s. False) (at_most_kickoff c)"
  using assms
proof (elim disjE conjE)
  assume h: "create_tasks E = Some e"
  show ?thesis
    unfolding run_def
    apply (rule hoare_block_Cons [OF kept(1)], simp)
    apply (rule hoare_block_Cons [OF kept(1)], simp)
    apply (rule hoare_block_Cons [OF external_raises [OF h]])
    apply (rule hoare_false)
    done
next
  assume h: "create_crew E = Some e"
  show ?thesis
    unfolding run_def
    apply (rule hoare_block_Cons [OF kept(1)], simp)
    apply (rule hoare_block_Cons [OF kept(1)], simp)
    apply (rule hoare_block_Cons [OF kept(1)], simp)
    apply (rule hoare_block_Cons [OF kept(1)], simp)
    apply (rule hoare_block_Cons [OF external_raises [OF h]])
    apply (rule hoare_false)
    done
next
  assume h: "kickoff E = Inl e"
  show ?thesis
    unfolding run_def
    apply (rule hoare_block_Cons [OF kept(1)], simp)
    apply (rule hoare_block_Cons [OF kept(1)], simp)
    apply (rule hoare_block_Cons [OF kept(1)], simp)
    apply (rule hoare_block_Cons [OF kept(1)], simp)
    apply (rule hoare_block_Cons [OF kept(1)], simp)
    apply (rule hoare_block_Cons [OF kept(1)], simp)
    apply (rule hoare_block_Cons [OF kickoff_raises [OF h]])
    apply (rule hoare_false)
    done
qed

lemma process_file_calls:
  assumes "create_agents E = Some e \<or>
        (create_agents E = None \<and> create_tasks E = Some e) \<or>
        (create_agents E = None \<and> create_tasks E = None \<and> create_crew E = Some e) \<or>
        (create_agents E = None \<and> create_tasks E = None \<and> create_crew E = None \<and> kickoff E = Inl e)"
  shows "hoare (no_call c) (process_file E tid input cols) (at_most_kickoff c) (at_most_kickoff c)"
proof -
  let ?self = "new_crew E SOURCE_CSV input cols True"
  let ?body = "block [
              update 0.05 ''Starting CSV enrichment process...'' ''processing'',
              external (create_agents E),
              run E ?self,
              complete (output_csv_path ?self),
              set_active tid (\<lambda>info. info\<lparr>task_status := ''completed''\<rparr>),
              set_active tid (\<lambda>info. info\<lparr>output_file := Some (output_csv_path ?self)\<rparr>)]"
  have body: "hoare (no_call c) ?body (\<lambda>s. False) (at_most_kickoff c)"
  proof (cases "create_agents E")
    case (Some a)
    then have h: "create_agents E = Some e" using assms by auto
    show ?thesis
      apply (rule hoare_block_Cons [OF kept(1)], simp)
      apply (rule hoare_block_Cons [OF external_raises [OF h]])
      apply (rule hoare_false)
      done
  next
    case None
    then have h: "create_tasks E = Some e \<or> (create_tasks E = None \<and> create_crew E = Some e) \<or>
           (create_tasks E = None \<and> create_crew E = None \<and> kickoff E = Inl e)"
      using assms by auto
    show ?thesis
      apply (rule hoare_block_Cons [OF kept(1)], simp)
      apply (rule hoare_block_Cons [OF kept(1)], simp)
      apply (rule hoare_block_Cons [OF run_raises [OF h]])
      apply (rule hoare_false)
      done
  qed
  have body': "hoare (no_call c) ?body (at_most_kickoff c) (at_most_kickoff c)"
    by (rule hoare_weaken [OF body]) simp_all
  have handler: "hoare (at_most_kickoff c)
      (block [fail (str x),
              set_active tid (\<lambda>info. info\<lparr>task_status := ''failed''\<rparr>),
              set_active tid (\<lambda>info. info\<lparr>task_error := Some (str x)\<rparr>)])
      (at_most_kickoff c) (at_most_kickoff c)" for x
    apply (rule hoare_block_Cons [OF kept(2)], simp)
    apply (rule hoare_block_Cons [OF kept(2)], simp)
    apply (rule hoare_block_Cons [OF kept(2)], simp)
    apply (rule hoare_block_Nil)
    done
  show ?thesis
    unfolding process_file_def Let_def
    apply (rule hoare_seq [OF kept(1)], simp)
    apply (rule hoare_try [OF body'])
    apply (rule handler)
    done
qed

section \<open>The fallback looks at four columns only\<close>

lemma agree_cell:
  assumes "agree d d'" "i < length (data d)"
  shows "at_get d' i CLUSTER_ID = at_get d i CLUSTER_ID"
    "at_get d' i CATEGORY_ID = at_get d i CATEGORY_ID"
    "at_get d' i CATEGORY_LABEL = at_get d i CATEGORY_LABEL"
    "at_get d' i PRODUCT_TITLE = at_get d i PRODUCT_TITLE"
  using assms by (simp_all add: agree_def)

lemma agree_length: "agree d d' \<Longrightarrow> length (data d') = length (data d)"
  by (simp add: agree_def)

lemma agree_columns: "agree d d' \<Longrightarrow> columns d' = columns d"
  by (simp add: agree_def)

lemma agree_put:
  assumes "agree d d'"
  shows "agree (at_put d idx c v) (at_put d' idx c v)"
proof -
  have len: "length (data d') = length (data d)" using assms by (rule agree_length)
  have cell: "at_get (at_put d' idx c v) i x = at_get (at_put d idx c v) i x"
    if "i < length (data d)" "at_get d' i x = at_get d i x" for i x
    using that len by (auto simp add: at_put_def at_get_def nth_update_any)
  show ?thesis
    unfolding agree_def
  proof (intro conjI allI impI)
    show "columns (at_put d' idx c v) = columns (at_put d idx c v)"
      using assms by (simp add: at_put_def agree_def)
    show "length (data (at_put d' idx c v)) = length (data (at_put d idx c v))"
      using len by (simp add: at_put_def)
  next
    fix i assume "i < length (data (at_put d idx c v))"
    then have i: "i < length (data d)" by (simp add: at_put_def)
    show "at_get (at_put d' idx c v) i CLUSTER_ID = at_get (at_put d idx c v) i CLUSTER_ID"
      using cell [OF i] agree_cell(1) [OF assms i] by simp
    show "at_get (at_put d' idx c v) i CATEGORY_ID = at_get (at_put d idx c v) i CATEGORY_ID"
      using cell [OF i] agree_cell(2) [OF assms i] by simp
    show "at_get (at_put d' idx c v) i CATEGORY_LABEL = at_get (at_put d idx c v) i CATEGORY_LABEL"
      using cell [OF i] agree_cell(3) [OF assms i] by simp
    show "at_get (at_put d' idx c v) i PRODUCT_TITLE = at_get (at_put d idx c v) i PRODUCT_TITLE"
      using cell [OF i] agree_cell(4) [OF assms i] by simp
  qed
qed

lemma agree_group_keys:
  assumes "agree d d'"
  shows "group_keys d' = group_keys d"
proof -
  have "map (\<lambda>r. r CLUSTER_ID) (data d') = map (\<lambda>r. r CLUSTER_ID) (data d)"
  proof (rule nth_equalityI)
    show "length (map (\<lambda>r. r CLUSTER_ID) (data d')) = length (map (\<lambda>r. r CLUSTER_ID) (data d))"
      using agree_length [OF assms] by simp
  next
    fix i assume "i < length (map (\<lambda>r. r CLUSTER_ID) (data d'))"
    then have i: "i < length (data d)" using agree_length [OF assms] by simp
    then show "map (\<lambda>r. r CLUSTER_ID) (data d') ! i = map (\<lambda>r. r CLUSTER_ID) (data d) ! i"
      using agree_cell(1) [OF assms i] agree_length [OF assms] by (simp add: at_get_def)
  qed
  moreover have "List.map_filter (\<lambda>r. case r CLUSTER_ID of Val k \<Rightarrow> Some k | NaN \<Rightarrow> None) xs =
      List.map_filter (\<lambda>c. case c of Val k \<Rightarrow> Some k | NaN \<Rightarrow> None) (map (\<lambda>r. r CLUSTER_ID) xs)"
    for xs :: "'a row list"
    by (induction xs) (simp_all split: cell.splits)
  ultimately show ?thesis by (simp add: group_keys_def)
qed

lemma agree_group_index:
  assumes "agree d d'"
  shows "group_index d' k = group_index d k"
proof -
  have "filter (\<lambda>i. at_get d' i CLUSTER_ID = Val k) [0..<length (data d)] =
        filter (\<lambda>i. at_get d i CLUSTER_ID = Val k) [0..<length (data d)]"
    by (rule filter_cong) (simp_all add: agree_cell(1) [OF assms])
  then show ?thesis by (simp add: group_index_def agree_length [OF assms])
qed

lemma agree_category_rows:
  assumes "agree d d'" "\<forall>i \<in> set members. i < length (data d)"
  shows "category_rows d' members = category_rows d members"
  unfolding category_rows_def
  by (rule filter_cong) (simp_all add: agree_cell(3) [OF assms(1)] assms(2))

lemma agree_put_cell:
  assumes "agree d d'" "i < length (data d)"
  shows "at_get (at_put d' idx c v) i CATEGORY_LABEL = at_get (at_put d idx c v) i CATEGORY_LABEL"
  using agree_cell(3) [OF agree_put [OF assms(1)], of i idx c v] assms(2) by (simp add: at_put_def)

lemma agree_fill_row:
  assumes "agree_states s s'" "idx < length (data (df s))"
  shows "agree_states (fill_row cid cl s idx) (fill_row cid cl s' idx)"
proof -
  have a: "agree (df s) (df s')" and n: "enrichment_count s' = enrichment_count s"
    and r: "rows_processed s' = rows_processed s"
    using assms(1) by (simp_all add: agree_states_def)
  have id: "at_get (df s') idx CATEGORY_ID = at_get (df s) idx CATEGORY_ID"
    using agree_cell(2) [OF a assms(2)] .
  have lb0: "at_get (df s') idx CATEGORY_LABEL = at_get (df s) idx CATEGORY_LABEL"
    using agree_cell(3) [OF a assms(2)] .
  have lb: "at_get (at_put (df s') idx CATEGORY_ID cid) idx CATEGORY_LABEL =
            at_get (at_put (df s) idx CATEGORY_ID cid) idx CATEGORY_LABEL"
    using agree_put_cell [OF a assms(2)] .
  show ?thesis
  proof (cases "isna (at_get (df s) idx CATEGORY_ID)")
    case True
    show ?thesis
    proof (cases "isna (at_get (at_put (df s) idx CATEGORY_ID cid) idx CATEGORY_LABEL)")
      case True
      then show ?thesis
        using \<open>isna (at_get (df s) idx CATEGORY_ID)\<close> id lb n r
        by (simp add: fill_row_def agree_states_def agree_put [OF agree_put [OF a]])
    next
      case False
      then show ?thesis
        using \<open>isna (at_get (df s) idx CATEGORY_ID)\<close> id lb n r
        by (simp add: fill_row_def agree_states_def agree_put [OF a])
    qed
  next
    case False
    show ?thesis
    proof (cases "isna (at_get (df s) idx CATEGORY_LABEL)")
      case True
      then show ?thesis
        using False id lb0 n r by (simp add: fill_row_def agree_states_def agree_put [OF a])
    next
      case no: False
      then show ?thesis
        using False id lb0 n r a by (simp add: fill_row_def agree_states_def)
    qed
  qed
qed

lemma agree_foldl_fill_row:
  assumes "agree_states s s'" "\<forall>i \<in> set idxs. i < length (data (df s))"
  shows "agree_states (foldl (fill_row cid cl) s idxs) (foldl (fill_row cid cl) s' idxs)"
  using assms
proof (induction idxs arbitrary: s s')
  case Nil
  then show ?case by simp
next
  case (Cons i idxs)
  have 1: "agree_states (fill_row cid cl s i) (fill_row cid cl s' i)"
    using agree_fill_row [OF Cons.prems(1)] Cons.prems(2) by simp
  have 2: "\<forall>j \<in> set idxs. j < length (data (df (fill_row cid cl s i)))"
    using Cons.prems(2) by simp
  show ?case using Cons.IH [OF 1 2] by simp
qed

lemma process_cluster_length [simp]:
  "length (data (df (snd (process_cluster d0 k s)))) = length (data (df s))"
  by (simp add: process_cluster_def Let_def split: list.splits)

lemma agree_process_cluster:
  assumes d: "agree d0 d0'" and s: "agree_states s s'"
    and len: "length (data (df s)) = length (data d0)"
  shows "fst (process_cluster d0' k s') = fst (process_cluster d0 k s) \<and>
         agree_states (snd (process_cluster d0 k s)) (snd (process_cluster d0' k s'))"
proof -
  let ?m = "group_index d0 k"
  have m: "group_index d0' k = ?m" using agree_group_index [OF d] .
  have bound: "\<forall>i \<in> set ?m. i < length (data d0)" by (simp add: group_index_def)
  have cr: "category_rows d0' ?m = category_rows d0 ?m"
    using agree_category_rows [OF d bound] .
  have cols: "columns d0' = columns d0" using agree_columns [OF d] .
  show ?thesis
  proof (cases "category_rows d0 ?m")
    case Nil
    then show ?thesis using s m cr cols by (simp add: process_cluster_def Let_def)
  next
    case (Cons j rest)
    then have "j \<in> set (category_rows d0 ?m)" by simp
    then have j: "j < length (data d0)" using bound by (auto simp: category_rows_def)
    have donor: "at_get d0' j CATEGORY_ID = at_get d0 j CATEGORY_ID"
        "at_get d0' j CATEGORY_LABEL = at_get d0 j CATEGORY_LABEL"
      using agree_cell(2,3) [OF d j] by simp_all
    have fold: "agree_states (foldl (fill_row cid cl) s ?m) (foldl (fill_row cid cl) s' ?m)" for cid cl
      using agree_foldl_fill_row [OF s] bound len by simp
    show ?thesis using s m cr cols Cons donor fold by (simp add: process_cluster_def Let_def)
  qed
qed

lemma agree_propagation_loop:
  assumes d: "agree d0 d0'" and s: "agree_states s s'"
    and len: "length (data (df s)) = length (data d0)"
  shows "fst (for_each (process_cluster d0') ks s') = fst (for_each (process_cluster d0) ks s) \<and>
         agree_states (snd (for_each (process_cluster d0) ks s)) (snd (for_each (process_cluster d0') ks s'))"
  using s len
proof (induction ks arbitrary: s s')
  case Nil
  then show ?case by simp
next
  case (Cons k ks)
  obtain e s1 where b: "process_cluster d0 k s = (e, s1)" by (cases "process_cluster d0 k s")
  obtain e' s1' where b': "process_cluster d0' k s' = (e', s1')" by (cases "process_cluster d0' k s'")
  have 1: "e' = e" "agree_states s1 s1'"
    using agree_process_cluster [OF d Cons.prems(1) Cons.prems(2), of k] b b' by simp_all
  have 2: "length (data (df s1)) = length (data d0)"
    using process_cluster_length [of d0 k s] b Cons.prems(2) by simp
  show ?case
  proof (cases e)
    case None
    then show ?thesis using b b' 1 Cons.IH [OF 1(2) 2] by simp
  next
    case (Some x)
    then show ?thesis using b b' 1 by simp
  qed
qed

lemma agree_group_propagation:
  assumes "agree_states s s'"
  shows "fst (group_propagation s') = fst (group_propagation s) \<and>
         agree_states (snd (group_propagation s)) (snd (group_propagation s'))"
proof -
  have d: "agree (df s) (df s')" using assms by (simp add: agree_states_def)
  show ?thesis
    using agree_propagation_loop [OF d assms refl, of "group_keys (df s)"]
      agree_group_keys [OF d] agree_columns [OF d] assms
    by (simp add: group_propagation_def Let_def)
qed

lemma agree_search_and_fill:
  assumes s: "agree_states s s'"
    and row: "row' PRODUCT_TITLE = row PRODUCT_TITLE" "row' CATEGORY_ID = row CATEGORY_ID"
      "row' CATEGORY_LABEL = row CATEGORY_LABEL"
  shows "agree_states (search_and_fill tool cols idx row s) (search_and_fill tool cols idx row' s')"
proof -
  have a: "agree (df s) (df s')" and n: "enrichment_count s' = enrichment_count s"
    and r: "rows_processed s' = rows_processed s"
    using s by (simp_all add: agree_states_def)
  show ?thesis
    unfolding search_and_fill_def Let_def row
    by (simp add: agree_states_def a n r agree_put split: sum.splits option.splits)
qed

lemma agree_residual_row:
  assumes d: "agree d1 d1'" and s: "agree_states s s'" and idx: "idx < length (data d1)"
  shows "fst (residual_row tool d1' idx s') = fst (residual_row tool d1 idx s) \<and>
         agree_states (snd (residual_row tool d1 idx s)) (snd (residual_row tool d1' idx s'))"
proof -
  have row: "(data d1' ! idx) PRODUCT_TITLE = (data d1 ! idx) PRODUCT_TITLE"
      "(data d1' ! idx) CATEGORY_ID = (data d1 ! idx) CATEGORY_ID"
      "(data d1' ! idx) CATEGORY_LABEL = (data d1 ! idx) CATEGORY_LABEL"
    using agree_cell(2,3,4) [OF d idx] by (simp_all add: at_get_def)
  have cols: "columns d1' = columns d1" using agree_columns [OF d] .
  have s1: "agree_states (s\<lparr>rows_processed := rows_processed s + 1\<rparr>)
              (s'\<lparr>rows_processed := rows_processed s' + 1\<rparr>)"
    using s by (simp add: agree_states_def)
  have fill: "agree_states
      (search_and_fill tool (columns d1) idx (data d1 ! idx) (s\<lparr>rows_processed := rows_processed s + 1\<rparr>))
      (search_and_fill tool (columns d1) idx (data d1' ! idx) (s'\<lparr>rows_processed := rows_processed s' + 1\<rparr>))"
    using agree_search_and_fill [OF s1 row] .
  show ?thesis
    using s s1 fill row cols by (simp add: residual_row_def Let_def)
qed

lemma agree_residual_loop:
  assumes d: "agree d1 d1'" and s: "agree_states s s'"
    and idxs: "\<forall>i \<in> set idxs. i < length (data d1)"
  shows "fst (for_each (residual_row tool d1') idxs s') = fst (for_each (residual_row tool d1) idxs s) \<and>
         agree_states (snd (for_each (residual_row tool d1) idxs s))
           (snd (for_each (residual_row tool d1') idxs s'))"
  using s idxs
proof (induction idxs arbitrary: s s')
  case Nil
  then show ?case by simp
next
  case (Cons i idxs)
  obtain e s1 where b: "residual_row tool d1 i s = (e, s1)" by (cases "residual_row tool d1 i s")
  obtain e' s1' where b': "residual_row tool d1' i s' = (e', s1')"
    by (cases "residual_row tool d1' i s'")
  have i: "i < length (data d1)" using Cons.prems(2) by simp
  have 1: "e' = e" "agree_states s1 s1'"
    using agree_residual_row [OF d Cons.prems(1) i, of tool] b b' by simp_all
  have 2: "\<forall>j \<in> set idxs. j < length (data d1)" using Cons.prems(2) by simp
  show ?case
  proof (cases e)
    case None
    then show ?thesis using b b' 1 Cons.IH [OF 1(2) 2] by simp
  next
    case (Some x)
    then show ?thesis using b b' 1 by simp
  qed
qed

lemma agree_residual_lookup:
  assumes "agree_states s s'"
  shows "fst (residual_lookup tool s') = fst (residual_lookup tool s) \<and>
         agree_states (snd (residual_lookup tool s)) (snd (residual_lookup tool s'))"
proof -
  have d: "agree (df s) (df s')" using assms by (simp add: agree_states_def)
  show ?thesis
    using agree_residual_loop [OF d assms, of "[0..<length (data (df s))]" tool] agree_length [OF d]
    by (simp add: residual_lookup_def Let_def)
qed

lemma agree_fallback_passes:
  assumes "agree d d'"
  shows "fst (fallback_passes tool d') = fst (fallback_passes tool d) \<and>
         agree_states (snd (fallback_passes tool d)) (snd (fallback_passes tool d'))"
proof -
  let ?s = "\<lparr>df = d, enrichment_count = 0, rows_processed = 0\<rparr>"
  let ?s' = "\<lparr>df = d', enrichment_count = 0, rows_processed = 0\<rparr>"
  have s0: "agree_states ?s ?s'" using assms by (simp add: agree_states_def)
  obtain e s1 where g: "group_propagation ?s = (e, s1)" by (cases "group_propagation ?s")
  obtain e' s1' where g': "group_propagation ?s' = (e', s1')" by (cases "group_propagation ?s'")
  have 1: "e' = e" "agree_states s1 s1'"
    using agree_group_propagation [OF s0] g g' by simp_all
  show ?thesis
  proof (cases e)
    case None
    then show ?thesis
      using g g' 1 agree_residual_lookup [OF 1(2), of tool] by (simp add: fallback_passes_def)
  next
    case (Some x)
    then show ?thesis using g g' 1 by (simp add: fallback_passes_def)
  qed
qed

section \<open>Group propagation\<close>

lemmas propagation_eval =
  group_propagation_def group_keys_def List.map_filter_def process_cluster_def group_index_def
  category_rows_def at_get_def at_put_def isna_def fill_row_def Let_def upt_rec mk_row_def

text \<open>
  Claim C1, as amended.  Take a table that has the columns \<open>Cluster ID\<close>, \<open>Category ID\<close> and
  \<open>Category Label\<close>, and a row \<open>i\<close> whose cluster is \<open>k\<close>.  Group propagation raises nothing
  and keeps the number of rows.  If the group of \<open>k\<close> has another row \<open>i'\<close> and some row \<open>j\<close>
  of the group has a label, then row \<open>i\<close> has a label afterwards; and if \<open>j\<close> is the first
  labelled row of the group in row order, a label missing in row \<open>i\<close> has become the label
  of row \<open>j\<close>, and an identifier missing in row \<open>i\<close> has become the identifier cell of that
  same row \<open>j\<close>.  If row \<open>i\<close> is the only row of its group, it is left as it was.
\<close>

theorem group_propagation_labelled_group:
  fixes d :: "'v::linorder dataframe"
  assumes cols: "CLUSTER_ID \<in> set (columns d)" "CATEGORY_ID \<in> set (columns d)"
      "CATEGORY_LABEL \<in> set (columns d)"
    and run: "group_propagation \<lparr>df = d, enrichment_count = 0, rows_processed = 0\<rparr> = (e, s)"
    and i: "i < length (data d)" and key: "at_get d i CLUSTER_ID = Val k"
  shows "e = None \<and> length (data (df s)) = length (data d) \<and>
    (\<forall>i' j. i' < length (data d) \<and> i' \<noteq> i \<and> at_get d i' CLUSTER_ID = Val k \<and>
            j < length (data d) \<and> at_get d j CLUSTER_ID = Val k \<and> \<not> isna (at_get d j CATEGORY_LABEL)
       \<longrightarrow> \<not> isna (at_get (df s) i CATEGORY_LABEL) \<and>
           ((\<forall>m < j. at_get d m CLUSTER_ID = Val k \<longrightarrow> isna (at_get d m CATEGORY_LABEL)) \<longrightarrow>
              (isna (at_get d i CATEGORY_LABEL) \<longrightarrow>
                 at_get (df s) i CATEGORY_LABEL = at_get d j CATEGORY_LABEL) \<and>
              (isna (at_get d i CATEGORY_ID) \<longrightarrow>
                 at_get (df s) i CATEGORY_ID = at_get d j CATEGORY_ID))) \<and>
    ((\<forall>m < length (data d). m \<noteq> i \<longrightarrow> at_get d m CLUSTER_ID \<noteq> Val k) \<longrightarrow>
       data (df s) ! i = data d ! i)"
proof -
  let ?s0 = "\<lparr>df = d, enrichment_count = 0, rows_processed = 0\<rparr>"
  have s0: "df ?s0 = d" by simp
  have e: "e = None" using group_propagation_rows(1) [OF cols s0] run by simp
  have len: "length (data (df s)) = length (data d)"
    using group_propagation_rows(2) [OF cols s0] run by simp
  have row: "data (df s) ! i = propagate_row d i"
    using group_propagation_rows(3) [OF cols s0 i] run by simp
  have single: "data (df s) ! i = data d ! i"
    if "\<forall>m < length (data d). m \<noteq> i \<longrightarrow> at_get d m CLUSTER_ID \<noteq> Val k"
    using only_member [OF i key that] row key by (simp add: propagate_row_def)
  have multi: "\<not> isna (at_get (df s) i CATEGORY_LABEL) \<and>
           ((\<forall>m < j. at_get d m CLUSTER_ID = Val k \<longrightarrow> isna (at_get d m CATEGORY_LABEL)) \<longrightarrow>
              (isna (at_get d i CATEGORY_LABEL) \<longrightarrow>
                 at_get (df s) i CATEGORY_LABEL = at_get d j CATEGORY_LABEL) \<and>
              (isna (at_get d i CATEGORY_ID) \<longrightarrow>
                 at_get (df s) i CATEGORY_ID = at_get d j CATEGORY_ID))"
    if other: "i' < length (data d)" "i' \<noteq> i" "at_get d i' CLUSTER_ID = Val k"
      and donor: "j < length (data d)" "at_get d j CLUSTER_ID = Val k"
        "\<not> isna (at_get d j CATEGORY_LABEL)"
    for i' j
  proof -
    have big: "1 < length (group_index d k)"
      using two_members [OF group_index_props(1), of i d k i'] i key other
      by (simp add: group_index_props(2))
    have "j \<in> set (category_rows d (group_index d k))"
      using donor by (simp add: category_rows_group)
    then obtain j0 rest where cr: "category_rows d (group_index d k) = j0 # rest"
      by (cases "category_rows d (group_index d k)") auto
    then have "j0 \<in> set (category_rows d (group_index d k))" by simp
    then have j0: "\<not> isna (at_get d j0 CATEGORY_LABEL)"
      by (simp add: category_rows_group)
    have row': "data (df s) ! i =
        fill (at_get d j0 CATEGORY_ID) (at_get d j0 CATEGORY_LABEL) (data d ! i)"
      using row key big cr by (simp add: propagate_row_def)
    have 1: "\<not> isna (at_get (df s) i CATEGORY_LABEL)"
      using j0 by (simp add: at_get_def [of "df s"] row' fill_def)
    have 2: "(isna (at_get d i CATEGORY_LABEL) \<longrightarrow>
                 at_get (df s) i CATEGORY_LABEL = at_get d j CATEGORY_LABEL) \<and>
              (isna (at_get d i CATEGORY_ID) \<longrightarrow>
                 at_get (df s) i CATEGORY_ID = at_get d j CATEGORY_ID)"
      if first: "\<forall>m < j. at_get d m CLUSTER_ID = Val k \<longrightarrow> isna (at_get d m CATEGORY_LABEL)"
    proof -
      obtain rest' where "category_rows d (group_index d k) = j # rest'"
        unfolding category_rows_group
        using first_filter [of j "length (data d)"
            "\<lambda>i. at_get d i CLUSTER_ID = Val k \<and> \<not> isna (at_get d i CATEGORY_LABEL)"] donor first
        by auto
      then have "j0 = j" using cr by simp
      then show ?thesis
        by (simp add: at_get_def [of "df s"] row' fill_def) (simp add: at_get_def)
    qed
    show ?thesis using 1 2 by blast
  qed
  show ?thesis using e len single multi by blast
qed

text \<open>
  The theorem at the scenario table with the identifiers of rows 2 and 3 missing as well:
  row 2 (index 1) of group A takes label and identifier from row 1 (index 0).
\<close>

theorem group_propagation_labelled_group_witness:
  "CLUSTER_ID \<in> set (columns (scenario (Val ''1'') NaN NaN (Val ''2''))) \<and>
   CATEGORY_ID \<in> set (columns (scenario (Val ''1'') NaN NaN (Val ''2''))) \<and>
   CATEGORY_LABEL \<in> set (columns (scenario (Val ''1'') NaN NaN (Val ''2''))) \<and>
   at_get (scenario (Val ''1'') NaN NaN (Val ''2'')) 1 CLUSTER_ID = Val ''A'' \<and>
   at_get (scenario (Val ''1'') NaN NaN (Val ''2'')) 0 CLUSTER_ID = Val ''A'' \<and>
   \<not> isna (at_get (scenario (Val ''1'') NaN NaN (Val ''2'')) 0 CATEGORY_LABEL) \<and>
   isna (at_get (scenario (Val ''1'') NaN NaN (Val ''2'')) 1 CATEGORY_LABEL) \<and>
   isna (at_get (scenario (Val ''1'') NaN NaN (Val ''2'')) 1 CATEGORY_ID) \<and>
   at_get (df (snd (group_propagation
       \<lparr>df = scenario (Val ''1'') NaN NaN (Val ''2''), enrichment_count = 0, rows_processed = 0\<rparr>)))
     1 CATEGORY_LABEL = Val ''shoes'' \<and>
   at_get (df (snd (group_propagation
       \<lparr>df = scenario (Val ''1'') NaN NaN (Val ''2''), enrichment_count = 0, rows_processed = 0\<rparr>)))
     1 CATEGORY_ID = Val ''1''"
proof -
  let ?d = "scenario (Val ''1'') NaN NaN (Val ''2'')"
  let ?r = "group_propagation \<lparr>df = ?d, enrichment_count = 0, rows_processed = 0\<rparr>"
  have cols: "CLUSTER_ID \<in> set (columns ?d)" "CATEGORY_ID \<in> set (columns ?d)"
      "CATEGORY_LABEL \<in> set (columns ?d)"
    by (simp_all add: scenario_def)
  have run: "?r = (fst ?r, snd ?r)" by simp
  have i: "1 < length (data ?d)" by (simp add: scenario_def)
  have key: "at_get ?d 1 CLUSTER_ID = Val ''A''"
    by (simp add: scenario_def at_get_def mk_row_def)
  have facts: "(0::nat) < length (data ?d)" "(0::nat) \<noteq> 1" "at_get ?d 0 CLUSTER_ID = Val ''A''"
      "\<not> isna (at_get ?d 0 CATEGORY_LABEL)" "isna (at_get ?d 1 CATEGORY_LABEL)"
      "isna (at_get ?d 1 CATEGORY_ID)" "at_get ?d 0 CATEGORY_LABEL = Val ''shoes''"
      "at_get ?d 0 CATEGORY_ID = Val ''1''"
    by (simp_all add: scenario_def at_get_def mk_row_def isna_def)
  have "at_get (df (snd ?r)) 1 CATEGORY_LABEL = at_get ?d 0 CATEGORY_LABEL \<and>
        at_get (df (snd ?r)) 1 CATEGORY_ID = at_get ?d 0 CATEGORY_ID"
    using group_propagation_labelled_group [OF cols run i key] facts by blast
  then show ?thesis using cols key facts by simp
qed

text \<open>
  Claim C1 as stated fails for the column \<open>Category ID\<close>: in a group of two rows of which
  the first has an identifier and neither has a label, the second row's identifier is
  still missing after group propagation.
\<close>

theorem group_propagation_identifier_counterexample:
  "at_get unlabelled_pair 0 CLUSTER_ID = Val ''A'' \<and>
   at_get unlabelled_pair 1 CLUSTER_ID = Val ''A'' \<and>
   \<not> isna (at_get unlabelled_pair 0 CATEGORY_ID) \<and>
   isna (at_get (df (snd (group_propagation
       \<lparr>df = unlabelled_pair, enrichment_count = 0, rows_processed = 0\<rparr>))) 1 CATEGORY_ID)"
  by (simp add: propagation_eval unlabelled_pair_def)

section \<open>A job whose fallback raises\<close>

lemma runner_after_fallback:
  assumes faults: "pending_faults w = []" and known: "tid \<in> dom (active_tasks w)"
    and agents: "create_agents E = None" "create_tasks E = None" "create_crew E = None"
      "kickoff E = Inr crew_result" "agent_output E = None"
    and no_file: "output_csv_path (new_crew E SOURCE_CSV input cols True) \<notin> dom (csv_files w)"
    and run: "process_file E tid input cols w = (x, w')"
  shows "x = None \<and>
    (csv_files w input = None \<longrightarrow>
       (\<exists>state. get_task_state w' tid = Inr (Some state) \<and> status state = ''failed'' \<and>
          error state = Some (''[Errno 2] No such file or directory: '' @ [CHR 0x27] @ input @ [CHR 0x27]))) \<and>
    (\<forall>d e. csv_files w input = Some d \<and> to_csv_error E = Some e \<longrightarrow>
       (\<exists>state. get_task_state w' tid = Inr (Some state) \<and> status state = ''failed'' \<and>
          error state = Some (str e))) \<and>
    (\<forall>d. csv_files w input = Some d \<and> to_csv_error E = None \<longrightarrow>
       (\<exists>state. get_task_state w' tid = Inr (Some state) \<and> status state = ''completed'' \<and>
          result state = Some (output_csv_path (new_crew E SOURCE_CSV input cols True))) \<and>
       csv_files w' (output_csv_path (new_crew E SOURCE_CSV input cols True))
         = Some (fallback_table (search E) d))"
proof -
  obtain info where info: "active_tasks w tid = Some info" using known by auto
  have out: "csv_files w (output_csv_path (new_crew E SOURCE_CSV input cols True)) = None"
    using no_file by auto
  have "process_file E tid input cols w = (x, w') \<longrightarrow> ?thesis"
  proof (cases "csv_files w input")
    case None
    then show ?thesis
      unfolding process_file_def Let_def
      by (auto simp: runner_eval status_eval faults info agents out dom_def Let_def)
  next
    case (Some d)
    show ?thesis
    proof (cases "to_csv_error E")
      case None
      then show ?thesis
        using Some unfolding process_file_def Let_def
        by (auto simp: runner_eval status_eval faults info agents out dom_def Let_def)
    next
      case (Some e)
      then show ?thesis
        using \<open>csv_files w input = Some d\<close> unfolding process_file_def Let_def
        by (auto simp: runner_eval status_eval faults info agents out dom_def Let_def)
    qed
  qed
  then show ?thesis using run by blast
qed




section \<open>The fallback and the cells already filled\<close>

text \<open>
  Claim C3.  Whatever the search tool does, and whether or not the passes raise, a
  category cell that holds a value before the fallback holds the same value in the frame
  the fallback saves.  On a table whose category cells are all filled the fallback saves
  the table as it was, and so does a second run on the table saved.
\<close>

theorem fallback_never_overwrites:
  fixes d :: "'v::linorder dataframe"
  shows "(\<forall>i c. i < length (data d) \<and> (c = CATEGORY_ID \<or> c = CATEGORY_LABEL) \<and> \<not> isna (at_get d i c)
            \<longrightarrow> at_get (fallback_table tool d) i c = at_get d i c) \<and>
         ((\<forall>i < length (data d). \<not> isna (at_get d i CATEGORY_ID) \<and> \<not> isna (at_get d i CATEGORY_LABEL))
            \<longrightarrow> fallback_table tool d = d \<and> fallback_table tool' (fallback_table tool d) = d)"
proof -
  have keep: "at_get (fallback_table tool d) i c = at_get d i c"
    if "i < length (data d)" "\<not> isna (at_get d i c)" for i c
    using fallback_table_fills [of d tool] that unfolding fills_only_def by blast
  have full: "fallback_table t d = d"
    if "\<forall>i < length (data d). \<not> isna (at_get d i CATEGORY_ID) \<and> \<not> isna (at_get d i CATEGORY_LABEL)"
    for t
    using fills_only_full [OF fallback_table_fills that] .
  show ?thesis using keep full by simp
qed

text \<open>
  The theorem at two tables: the label of the first row of the scenario is kept, and the
  table with every category cell filled comes back as it was, also from a second run.
\<close>

theorem fallback_never_overwrites_witness:
  "(0::nat) < length (data (scenario (Val ''1'') NaN NaN (Val ''2''))) \<and>
   \<not> isna (at_get (scenario (Val ''1'') NaN NaN (Val ''2'')) 0 CATEGORY_LABEL) \<and>
   at_get (fallback_table silent_tool (scenario (Val ''1'') NaN NaN (Val ''2''))) 0 CATEGORY_LABEL
     = Val ''shoes'' \<and>
   length (data full_table) = 2 \<and>
   \<not> isna (at_get full_table 0 CATEGORY_ID) \<and> \<not> isna (at_get full_table 0 CATEGORY_LABEL) \<and>
   \<not> isna (at_get full_table 1 CATEGORY_ID) \<and> \<not> isna (at_get full_table 1 CATEGORY_LABEL) \<and>
   fallback_table silent_tool full_table = full_table \<and>
   fallback_table silent_tool (fallback_table silent_tool full_table) = full_table"
proof -
  let ?d = "scenario (Val ''1'') NaN NaN (Val ''2'')"
  have a: "(0::nat) < length (data ?d)" "\<not> isna (at_get ?d 0 CATEGORY_LABEL)"
      "at_get ?d 0 CATEGORY_LABEL = Val ''shoes''"
    by (simp_all add: scenario_def at_get_def mk_row_def isna_def)
  have b: "\<forall>i < length (data full_table).
       \<not> isna (at_get full_table i CATEGORY_ID) \<and> \<not> isna (at_get full_table i CATEGORY_LABEL)"
    by (simp add: full_table_def at_get_def mk_row_def isna_def less_Suc_eq numeral_eq_Suc)
  have 1: "at_get (fallback_table silent_tool ?d) 0 CATEGORY_LABEL = Val ''shoes''"
    using fallback_never_overwrites [of ?d silent_tool silent_tool] a by simp
  have 2: "fallback_table silent_tool full_table = full_table \<and>
      fallback_table silent_tool (fallback_table silent_tool full_table) = full_table"
    using fallback_never_overwrites [of full_table silent_tool silent_tool] b by blast
  have c: "length (data full_table) = 2"
      "\<not> isna (at_get full_table 0 CATEGORY_ID)" "\<not> isna (at_get full_table 0 CATEGORY_LABEL)"
      "\<not> isna (at_get full_table 1 CATEGORY_ID)" "\<not> isna (at_get full_table 1 CATEGORY_LABEL)"
    by (simp_all add: full_table_def at_get_def mk_row_def isna_def)
  show ?thesis using a c 1 2 by blast
qed

section \<open>Progress as the status boundary reports it\<close>

text \<open>
  Claim C4.  Let a job run from a state in which nothing but progress zero has been
  written under its task (the record made at submission), and look at the directory of
  progress files at two moments \<open>m \<le> n\<close> of the run, a moment being the number of writes
  made so far.  If the status boundary answers with a state at both moments, the progress
  of the first is at most the progress of the second, and both lie between 0 and 1.
  Whatever write fails, and wherever the run raises, this holds.  Moreover \<open>update\<close> leaves
  in the tracker a progress between 0 and 1 for every argument.
\<close>

theorem progress_reported_ascending:
  assumes fresh: "\<forall>p \<in> set (progress_values tid (progress_files w)). p = 0"
    and run: "process_file E tid input cols w = (x, w')"
    and moments: "m \<le> n"
    and first: "get_task_status (w'\<lparr>progress_files := take m (progress_files w')\<rparr>) tid = JSONResponse s1"
    and second: "get_task_status (w'\<lparr>progress_files := take n (progress_files w')\<rparr>) tid = JSONResponse s2"
  shows "0 \<le> progress s1 \<and> progress s1 \<le> progress s2 \<and> progress s2 \<le> 1 \<and>
         (\<forall>p msg st w0. 0 \<le> progress (the_tracker (snd (update p msg st w0))) \<and>
                         progress (the_tracker (snd (update p msg st w0))) \<le> 1)"
proof -
  let ?fs = "progress_files w'"
  let ?pv = "progress_values tid"
  have "fresh_progress tid w" using fresh by (simp add: fresh_progress_def)
  then have "case x of None \<Rightarrow> tracking tid 1 w' | Some e \<Rightarrow> tracking tid 1 w'"
    using run by (rule hoareD [OF process_file_tracking])
  then have inv: "tracking tid 1 w'" by (cases x) simp_all
  have sorted: "sorted (?pv ?fs)" and bounds: "\<forall>p \<in> set (?pv ?fs). 0 \<le> p \<and> p \<le> 1"
    using inv by (auto simp: tracking_def)
  have l1: "?pv (take m ?fs) \<noteq> [] \<and> last (?pv (take m ?fs)) = progress s1"
    using last_progress [OF status_read [OF first]] .
  have l2: "?pv (take n ?fs) \<noteq> [] \<and> last (?pv (take n ?fs)) = progress s2"
    using last_progress [OF status_read [OF second]] .
  have mn: "take m ?fs = take m (take n ?fs)" using moments by (simp add: min_def)
  have split_n: "?pv ?fs = ?pv (take n ?fs) @ ?pv (drop n ?fs)"
    by (rule progress_values_take)
  have split_m: "?pv (take n ?fs) = ?pv (take m ?fs) @ ?pv (drop m (take n ?fs))"
    using progress_values_take [of tid "take n ?fs" m] mn by simp
  have sorted_n: "sorted (?pv (take n ?fs))"
    using sorted split_n by (metis sorted_append)
  have in_n: "progress s1 \<in> set (?pv (take n ?fs))"
    using l1 split_m by (metis Un_iff last_in_set set_append)
  have "progress s1 \<le> progress s2"
    using sorted_last_max [OF sorted_n in_n] l2 by simp
  moreover have "progress s2 \<in> set (?pv ?fs)"
    using l2 split_n by (metis Un_iff last_in_set set_append)
  moreover have "progress s1 \<in> set (?pv ?fs)"
    using in_n split_n by (metis Un_iff set_append)
  moreover have "0 \<le> progress (the_tracker (snd (update p msg st w0))) \<and>
                 progress (the_tracker (snd (update p msg st w0))) \<le> 1" for p msg st and w0 :: "'b world"
    by (simp add: update_def save_state_def Let_def split: io_fault.splits)
  ultimately show ?thesis using bounds by blast
qed

text \<open>
  The theorem at a run of task \<open>t1\<close> in which every collaborator returns: after the first
  write the status boundary reports progress 0, after the second 0.05.
\<close>

theorem progress_reported_ascending_witness:
  "get_task_status
     ((snd (process_file quiet_env ''t1'' ''data/in.csv'' [] (submitted (scenario NaN NaN NaN NaN))))
        \<lparr>progress_files := take 1 (progress_files
           (snd (process_file quiet_env ''t1'' ''data/in.csv'' [] (submitted (scenario NaN NaN NaN NaN)))))\<rparr>)
     ''t1'' =
   JSONResponse \<lparr>task_id = ''t1'', status = ''initializing'', progress = 0,
                 message = ''Starting task...'', result = None, error = None\<rparr> \<and>
   get_task_status
     ((snd (process_file quiet_env ''t1'' ''data/in.csv'' [] (submitted (scenario NaN NaN NaN NaN))))
        \<lparr>progress_files := take 2 (progress_files
           (snd (process_file quiet_env ''t1'' ''data/in.csv'' [] (submitted (scenario NaN NaN NaN NaN)))))\<rparr>)
     ''t1'' =
   JSONResponse \<lparr>task_id = ''t1'', status = ''processing'', progress = 0.05,
                 message = ''Starting CSV enrichment process...'', result = None, error = None\<rparr> \<and>
   progress \<lparr>task_id = ''t1'', status = ''initializing'', progress = 0,
             message = ''Starting task...'', result = None, error = None\<rparr>
   \<le> progress \<lparr>task_id = ''t1'', status = ''processing'', progress = 0.05,
               message = ''Starting CSV enrichment process...'', result = None, error = None\<rparr>"
proof -
  let ?w = "submitted (scenario NaN NaN NaN NaN)"
  let ?r = "process_file quiet_env ''t1'' ''data/in.csv'' [] ?w"
  let ?s1 = "\<lparr>task_id = ''t1'', status = ''initializing'', progress = 0,
              message = ''Starting task...'', result = None, error = None\<rparr>"
  let ?s2 = "\<lparr>task_id = ''t1'', status = ''processing'', progress = 0.05,
              message = ''Starting CSV enrichment process...'', result = None, error = None\<rparr>"
  have fresh: "\<forall>p \<in> set (progress_values ''t1'' (progress_files ?w)). p = 0"
    by (simp add: submitted_def progress_values_def List.map_filter_def)
  have run: "?r = (fst ?r, snd ?r)" by simp
  have moments: "(1::nat) \<le> 2" by simp
  have first: "get_task_status ((snd ?r)\<lparr>progress_files := take 1 (progress_files (snd ?r))\<rparr>) ''t1''
      = JSONResponse ?s1"
    using quiet_run_active [of "[]" "scenario NaN NaN NaN NaN"]
    by (simp add: status_eval quiet_run_files)
  have second: "get_task_status ((snd ?r)\<lparr>progress_files := take 2 (progress_files (snd ?r))\<rparr>) ''t1''
      = JSONResponse ?s2"
    using quiet_run_active [of "[]" "scenario NaN NaN NaN NaN"]
    by (simp add: status_eval quiet_run_files)
  have "progress ?s1 \<le> progress ?s2"
    using progress_reported_ascending [OF fresh run moments first second] by blast
  then show ?thesis using first second by blast
qed

section \<open>A write of the tracker that fails\<close>

lemma save_state_open_fails:
  "next_fault w = Open_fails \<Longrightarrow>
     fst (save_state w) = Some (OSError ''open'') \<and>
     progress_files (snd (save_state w)) = progress_files w"
  by (simp add: save_state_def Let_def)

lemma save_state_dump_fails:
  "next_fault w = Dump_fails \<Longrightarrow> task_id (the_tracker w) = tid \<Longrightarrow>
     fst (save_state w) = Some (OSError ''write'') \<and>
     get_task_state (snd (save_state w)) tid = Inl (Raised ''JSONDecodeError'')"
  by (simp add: save_state_def Let_def read_file_def get_task_state_def)

text \<open>
  Claim C5, as amended.  When a write of the tracker fails at \<open>open\<close>, the operation
  (construction, \<open>update\<close>, \<open>complete\<close> or \<open>fail\<close>) raises, nothing is written, and every
  task's stored state reads as before.  When the write fails after the file has been
  opened, the operation raises and the task's file is left truncated: reading the task's
  state raises, whatever was stored before.
\<close>

theorem write_failure_effect:
  "(next_fault w = Open_fails \<longrightarrow>
      (\<forall>op \<in> {tracker_init (task_id (the_tracker w)), update p msg st, complete res, fail err}.
         fst (op w) = Some (OSError ''open'') \<and>
         progress_files (snd (op w)) = progress_files w \<and>
         get_task_state (snd (op w)) t = get_task_state w t)) \<and>
   (next_fault w = Dump_fails \<longrightarrow>
      (\<forall>op \<in> {tracker_init (task_id (the_tracker w)), update p msg st, complete res, fail err}.
         fst (op w) = Some (OSError ''write'') \<and>
         get_task_state (snd (op w)) (task_id (the_tracker w)) = Inl (Raised ''JSONDecodeError'')))"
proof -
  have nf: "next_fault (w\<lparr>the_tracker := x\<rparr>) = next_fault w" for x
    by (simp add: next_fault_def)
  have a: "fst (op w) = Some (OSError ''open'') \<and> progress_files (snd (op w)) = progress_files w \<and>
           get_task_state (snd (op w)) t = get_task_state w t"
    if "next_fault w = Open_fails"
      "op \<in> {tracker_init (task_id (the_tracker w)), update p msg st, complete res, fail err}" for op
    using that save_state_open_fails [of "w\<lparr>the_tracker := x\<rparr>" for x]
    by (auto simp: tracker_init_def update_def complete_def fail_def nf get_task_state_def)
  have b: "fst (op w) = Some (OSError ''write'') \<and>
           get_task_state (snd (op w)) (task_id (the_tracker w)) = Inl (Raised ''JSONDecodeError'')"
    if "next_fault w = Dump_fails"
      "op \<in> {tracker_init (task_id (the_tracker w)), update p msg st, complete res, fail err}" for op
    using that by (auto simp: tracker_init_def update_def complete_def fail_def nf
                       intro!: save_state_dump_fails [THEN conjunct1] save_state_dump_fails [THEN conjunct2])
  show ?thesis using a b by blast
qed

text \<open>
  The theorem at the state in which the first record of \<open>t1\<close> is stored: an \<open>update\<close> whose
  write fails at \<open>open\<close> leaves the record readable, one whose write fails later does not.
\<close>

theorem write_failure_effect_witness:
  "next_fault (saved_once\<lparr>pending_faults := [Open_fails]\<rparr>) = Open_fails \<and>
   get_task_state
     (snd (update 0.5 ''Running crew'' ''processing'' (saved_once\<lparr>pending_faults := [Open_fails]\<rparr>)))
     ''t1'' = Inr (Some first_record) \<and>
   next_fault saved_once = Dump_fails \<and>
   get_task_state (snd (update 0.5 ''Running crew'' ''processing'' saved_once)) ''t1''
     = Inl (Raised ''JSONDecodeError'')"
proof -
  let ?w = "saved_once\<lparr>pending_faults := [Open_fails]\<rparr>"
  have o: "next_fault ?w = Open_fails" and d: "next_fault saved_once = Dump_fails"
    by (simp_all add: next_fault_def saved_once_def)
  have before: "get_task_state ?w ''t1'' = Inr (Some first_record)"
    and tid: "task_id (the_tracker saved_once) = ''t1''"
    by (simp_all add: saved_once_def submitted_def status_eval)
  have 1: "get_task_state (snd (update 0.5 ''Running crew'' ''processing'' ?w)) ''t1''
      = get_task_state ?w ''t1''"
    using write_failure_effect [of ?w "0.5" "''Running crew''" "''processing''" _ _ "''t1''"] o
    by blast
  have 2: "get_task_state (snd (update 0.5 ''Running crew'' ''processing'' saved_once))
      (task_id (the_tracker saved_once)) = Inl (Raised ''JSONDecodeError'')"
    using write_failure_effect [of saved_once "0.5" "''Running crew''" "''processing''"] d
    by blast
  show ?thesis using o d 1 2 before tid by simp
qed

text \<open>
  Claim C5 as stated fails: the first record of \<open>t1\<close> is stored and readable; an \<open>update\<close>
  whose write fails after the file has been opened raises, and the stored record can no
  longer be read.
\<close>

theorem write_failure_counterexample:
  "get_task_state saved_once ''t1'' = Inr (Some first_record) \<and>
   fst (update 0.5 ''Running crew'' ''processing'' saved_once) = Some (OSError ''write'') \<and>
   get_task_state (snd (update 0.5 ''Running crew'' ''processing'' saved_once)) ''t1''
     = Inl (Raised ''JSONDecodeError'')"
  by (simp add: saved_once_def submitted_def status_eval update_def save_state_def next_fault_def Let_def)

section \<open>The scenario of the specification\<close>

lemmas residual_eval =
  fallback_passes_def residual_lookup_def residual_row_def search_and_fill_def

text \<open>
  Claim C6, as amended.  In the table of four rows with the cluster values A, A, B, B,
  the labels shoes, missing, missing, hats, and an identifier in every row, group
  propagation raises nothing, writes shoes into row 2 and hats into row 3, and leaves
  every other cell as it was: the cells it changes are those two.  It counts two
  enrichments over four rows processed.  The whole fallback does the same, whatever the
  search tool does, since no cell is missing when the second pass begins.
\<close>

theorem scenario_two_cells_filled:
  "group_propagation
      \<lparr>df = scenario (Val i1) (Val i2) (Val i3) (Val i4), enrichment_count = 0, rows_processed = 0\<rparr> =
     (None,
      \<lparr>df = \<lparr>columns = [PRODUCT_TITLE, CLUSTER_ID, CATEGORY_ID, CATEGORY_LABEL],
              data = [mk_row (Val ''boot'') (Val ''A'') (Val i1) (Val ''shoes''),
                      mk_row (Val ''clog'') (Val ''A'') (Val i2) (Val ''shoes''),
                      mk_row (Val ''cap'') (Val ''B'') (Val i3) (Val ''hats''),
                      mk_row (Val ''fez'') (Val ''B'') (Val i4) (Val ''hats'')]\<rparr>,
       enrichment_count = 2, rows_processed = 4\<rparr>) \<and>
   {(i, c). i < length (data (scenario (Val i1) (Val i2) (Val i3) (Val i4))) \<and>
            at_get (df (snd (group_propagation
              \<lparr>df = scenario (Val i1) (Val i2) (Val i3) (Val i4),
                enrichment_count = 0, rows_processed = 0\<rparr>))) i c
            \<noteq> at_get (scenario (Val i1) (Val i2) (Val i3) (Val i4)) i c} =
     {(1, CATEGORY_LABEL), (2, CATEGORY_LABEL)} \<and>
   fallback_passes tool (scenario (Val i1) (Val i2) (Val i3) (Val i4)) =
     group_propagation
      \<lparr>df = scenario (Val i1) (Val i2) (Val i3) (Val i4), enrichment_count = 0, rows_processed = 0\<rparr>"
proof -
  let ?d = "scenario (Val i1) (Val i2) (Val i3) (Val i4)"
  let ?out = "\<lparr>columns = [PRODUCT_TITLE, CLUSTER_ID, CATEGORY_ID, CATEGORY_LABEL],
              data = [mk_row (Val ''boot'') (Val ''A'') (Val i1) (Val ''shoes''),
                      mk_row (Val ''clog'') (Val ''A'') (Val i2) (Val ''shoes''),
                      mk_row (Val ''cap'') (Val ''B'') (Val i3) (Val ''hats''),
                      mk_row (Val ''fez'') (Val ''B'') (Val i4) (Val ''hats'')]\<rparr>"
  have run: "group_propagation \<lparr>df = ?d, enrichment_count = 0, rows_processed = 0\<rparr> =
      (None, \<lparr>df = ?out, enrichment_count = 2, rows_processed = 4\<rparr>)"
    by (simp add: propagation_eval scenario_def fun_eq_iff)
  have cells: "{(i, c). i < length (data ?d) \<and> at_get ?out i c \<noteq> at_get ?d i c} =
      {(1, CATEGORY_LABEL), (2, CATEGORY_LABEL)}"
    by (auto simp: scenario_def at_get_def mk_row_def less_Suc_eq numeral_eq_Suc split: if_splits)
  have rest: "residual_lookup tool \<lparr>df = ?out, enrichment_count = 2, rows_processed = 4\<rparr> =
      (None, \<lparr>df = ?out, enrichment_count = 2, rows_processed = 4\<rparr>)"
    by (simp add: residual_eval isna_def mk_row_def upt_rec)
  show ?thesis using cells by (simp add: run fallback_passes_def rest)
qed

text \<open>
  Claim C6 as stated fails when rows 2 and 3 miss their identifier along with their label,
  as rows without a category do: four cells are filled and the counter reports 4.
\<close>

theorem scenario_four_cells_counterexample:
  "at_get (scenario (Val ''1'') NaN NaN (Val ''2'')) 0 CATEGORY_LABEL = Val ''shoes'' \<and>
   isna (at_get (scenario (Val ''1'') NaN NaN (Val ''2'')) 1 CATEGORY_LABEL) \<and>
   isna (at_get (scenario (Val ''1'') NaN NaN (Val ''2'')) 2 CATEGORY_LABEL) \<and>
   at_get (scenario (Val ''1'') NaN NaN (Val ''2'')) 3 CATEGORY_LABEL = Val ''hats'' \<and>
   enrichment_count (snd (group_propagation
      \<lparr>df = scenario (Val ''1'') NaN NaN (Val ''2''), enrichment_count = 0, rows_processed = 0\<rparr>)) = 4 \<and>
   enrichment_count (snd (group_propagation
      \<lparr>df = scenario (Val ''1'') NaN NaN (Val ''2''), enrichment_count = 0, rows_processed = 0\<rparr>)) \<noteq> 2"
  by (simp add: propagation_eval scenario_def)

section \<open>A job whose agents raise\<close>

lemma runner_reports_delegated_raise:
  assumes faults: "pending_faults w = []" and known: "tid \<in> dom (active_tasks w)"
    and raised: "create_agents E = Some e \<or>
        (create_agents E = None \<and> create_tasks E = Some e) \<or>
        (create_agents E = None \<and> create_tasks E = None \<and> create_crew E = Some e) \<or>
        (create_agents E = None \<and> create_tasks E = None \<and> create_crew E = None \<and> kickoff E = Inl e)"
    and run: "process_file E tid input cols w = (x, w')"
  shows "x = None \<and>
         (\<exists>state. get_task_state w' tid = Inr (Some state) \<and> status state = ''failed'' \<and>
                   error state = Some (str e) \<and> message state = ''Task failed: '' @ str e \<and>
                   result state = None) \<and>
         map_option task_status (active_tasks w' tid) = Some ''failed'' \<and>
         (calls w' = calls w \<or> calls w' = calls w @ [Kickoff]) \<and>
         download_file w' tid = HTTPException 400 ''Task is not completed yet''"
proof -
  obtain info where info: "active_tasks w tid = Some info" using known by auto
  have "process_file E tid input cols w = (x, w') \<longrightarrow> ?thesis"
    using raised
  proof (elim disjE conjE)
    assume "create_agents E = Some e"
    then show ?thesis
      unfolding process_file_def Let_def
      by (auto simp: runner_eval status_eval download_file_def faults info)
  next
    assume "create_agents E = None" "create_tasks E = Some e"
    then show ?thesis
      unfolding process_file_def Let_def
      by (auto simp: runner_eval status_eval download_file_def faults info)
  next
    assume "create_agents E = None" "create_tasks E = None" "create_crew E = Some e"
    then show ?thesis
      unfolding process_file_def Let_def
      by (auto simp: runner_eval status_eval download_file_def faults info)
  next
    assume "create_agents E = None" "create_tasks E = None" "create_crew E = None" "kickoff E = Inl e"
    then show ?thesis
      unfolding process_file_def Let_def
      by (auto simp: runner_eval status_eval download_file_def faults info Let_def split: option.splits)
  qed
  then show ?thesis using run by blast
qed

text \<open>
  Claim C7, as amended.  Let the delegated attempt of a job raise \<open>e\<close> (in the
  construction of the tool and agents, of the tasks or of the crew, or in the run of the
  agents).  Then the fallback is not invoked, whatever the tracker's writes do: the only
  call the job makes to a collaborator is at most the run of the agents.  If moreover the
  task is in \<open>active_tasks\<close> and every write of the tracker goes well, no exception leaves
  \<open>process_file\<close>; the stored state of the task has status \<open>failed\<close>, the text of \<open>e\<close> as
  its error and no result; the task's entry in \<open>active_tasks\<close> says \<open>failed\<close>; and the
  result boundary refuses the task.
\<close>

theorem delegated_exception_fails_job:
  assumes raised: "create_agents E = Some e \<or>
        (create_agents E = None \<and> create_tasks E = Some e) \<or>
        (create_agents E = None \<and> create_tasks E = None \<and> create_crew E = Some e) \<or>
        (create_agents E = None \<and> create_tasks E = None \<and> create_crew E = None \<and> kickoff E = Inl e)"
    and run: "process_file E tid input cols w = (x, w')"
  shows "(calls w' = calls w \<or> calls w' = calls w @ [Kickoff]) \<and>
         (pending_faults w = [] \<and> tid \<in> dom (active_tasks w) \<longrightarrow>
            x = None \<and>
            (\<exists>state. get_task_state w' tid = Inr (Some state) \<and> status state = ''failed'' \<and>
                      error state = Some (str e) \<and> message state = ''Task failed: '' @ str e \<and>
                      result state = None) \<and>
            map_option task_status (active_tasks w' tid) = Some ''failed'' \<and>
            download_file w' tid = HTTPException 400 ''Task is not completed yet'')"
proof -
  have "no_call (calls w) w" by (simp add: no_call_def)
  then have "case x of None \<Rightarrow> at_most_kickoff (calls w) w' | Some a \<Rightarrow> at_most_kickoff (calls w) w'"
    using run by (rule hoareD [OF process_file_calls [OF raised]])
  then have 1: "calls w' = calls w \<or> calls w' = calls w @ [Kickoff]"
    by (cases x) (simp_all add: at_most_kickoff_def)
  have 2: "x = None \<and>
            (\<exists>state. get_task_state w' tid = Inr (Some state) \<and> status state = ''failed'' \<and>
                      error state = Some (str e) \<and> message state = ''Task failed: '' @ str e \<and>
                      result state = None) \<and>
            map_option task_status (active_tasks w' tid) = Some ''failed'' \<and>
            download_file w' tid = HTTPException 400 ''Task is not completed yet''"
    if "pending_faults w = []" "tid \<in> dom (active_tasks w)"
    using runner_reports_delegated_raise [OF that raised run] by blast
  show ?thesis using 1 2 by blast
qed

text \<open>
  The theorem at a run of task \<open>t1\<close> whose agents raise: nothing leaves the runner, the
  only call made is the run of the agents, and the result boundary refuses the task.
\<close>

theorem delegated_exception_fails_job_witness:
  "pending_faults (submitted full_table) = [] \<and>
   ''t1'' \<in> dom (active_tasks (submitted full_table)) \<and>
   create_agents failing_env = None \<and> create_tasks failing_env = None \<and>
   create_crew failing_env = None \<and> kickoff failing_env = Inl (Raised ''agent stopped'') \<and>
   fst (process_file failing_env ''t1'' ''data/in.csv'' [] (submitted full_table)) = None \<and>
   map_option task_status
     (active_tasks (snd (process_file failing_env ''t1'' ''data/in.csv'' [] (submitted full_table))) ''t1'')
     = Some ''failed'' \<and>
   calls (snd (process_file failing_env ''t1'' ''data/in.csv'' [] (submitted full_table))) = [Kickoff] \<and>
   download_file (snd (process_file failing_env ''t1'' ''data/in.csv'' [] (submitted full_table))) ''t1''
     = HTTPException 400 ''Task is not completed yet''"
proof -
  let ?w = "submitted full_table"
  let ?r = "process_file failing_env ''t1'' ''data/in.csv'' [] ?w"
  have faults: "pending_faults ?w = []" and known: "''t1'' \<in> dom (active_tasks ?w)"
    and none: "calls ?w = []"
    by (simp_all add: submitted_def)
  have env: "create_agents failing_env = None" "create_tasks failing_env = None"
      "create_crew failing_env = None" "kickoff failing_env = Inl (Raised ''agent stopped'')"
    by (simp_all add: failing_env_def quiet_env_def)
  have raised: "create_agents failing_env = Some (Raised ''agent stopped'') \<or>
        (create_agents failing_env = None \<and> create_tasks failing_env = Some (Raised ''agent stopped'')) \<or>
        (create_agents failing_env = None \<and> create_tasks failing_env = None \<and>
         create_crew failing_env = Some (Raised ''agent stopped'')) \<or>
        (create_agents failing_env = None \<and> create_tasks failing_env = None \<and>
         create_crew failing_env = None \<and> kickoff failing_env = Inl (Raised ''agent stopped''))"
    using env by simp
  have run: "?r = (fst ?r, snd ?r)" by simp
  have made: "calls (snd ?r) \<noteq> []"
    unfolding process_file_def Let_def
    by (simp add: runner_eval crew_eval failing_env_def quiet_env_def submitted_def)
  note inst = delegated_exception_fails_job [OF raised run]
  note calls_made = inst [THEN conjunct1]
  note reported = inst [THEN conjunct2, THEN mp, OF conjI [OF faults known]]
  have c: "calls (snd ?r) = [Kickoff]" using calls_made made none by simp
  show ?thesis
    by (intro conjI)
      (rule faults known env c reported [THEN conjunct1]
         reported [THEN conjunct2, THEN conjunct2, THEN conjunct1]
         reported [THEN conjunct2, THEN conjunct2, THEN conjunct2])+
qed

text \<open>
  Claim C7 as stated fails when the tracker's write in the \<open>except\<close> clause fails: the
  agents of task \<open>t1\<close> raise, the seventh write (the one of \<open>fail\<close>) cannot open its
  file, that failure leaves \<open>process_file\<close>, and the stored state still says
  \<open>processing\<close>.
\<close>

theorem delegated_exception_unreported_counterexample:
  "kickoff failing_env = Inl (Raised ''agent stopped'') \<and>
   ''t1'' \<in> dom (active_tasks seventh_write_fails) \<and>
   fst (process_file failing_env ''t1'' ''data/in.csv'' [] seventh_write_fails) = Some (OSError ''open'') \<and>
   get_task_state (snd (process_file failing_env ''t1'' ''data/in.csv'' [] seventh_write_fails)) ''t1''
     = Inr (Some \<lparr>task_id = ''t1'', status = ''processing'', progress = 0.5,
                  message = ''Running crew'', result = None, error = None\<rparr>)"
  unfolding process_file_def Let_def
  by (simp add: faulty_eval crew_eval status_eval failing_env_def quiet_env_def
        seventh_write_fails_def submitted_def)

section \<open>The result boundary\<close>

text \<open>
  Claim C8.  When \<open>download_file\<close> serves a file, the task is known, its stored state has
  status \<open>completed\<close>, and the file is the one the state names as its result.  For a known
  task whose stored state has any other status (\<open>initializing\<close>, \<open>processing\<close>, \<open>failed\<close>)
  the answer is the error 400; for a known task with no stored state, and for an unknown
  task id, it is the error 404.
\<close>

theorem download_only_completed:
  "(download_file w tid = FileResponse path \<longrightarrow>
       tid \<in> dom (active_tasks w) \<and> path \<in> dom (csv_files w) \<and>
       (\<exists>state. get_task_state w tid = Inr (Some state) \<and> status state = ''completed'' \<and>
                 result state = Some path)) \<and>
   (tid \<in> dom (active_tasks w) \<and> get_task_state w tid = Inr (Some st) \<and> status st \<noteq> ''completed''
      \<longrightarrow> download_file w tid = HTTPException 400 ''Task is not completed yet'') \<and>
   (tid \<in> dom (active_tasks w) \<and> get_task_state w tid = Inr None
      \<longrightarrow> download_file w tid = HTTPException 404 ''Task state not found'') \<and>
   (tid \<notin> dom (active_tasks w) \<longrightarrow> download_file w tid = HTTPException 404 ''Task not found'')"
  by (auto simp: download_file_def split: sum.splits option.splits if_splits)

text \<open>
  The theorem at three requests: for the result of task \<open>t1\<close> after its first record only,
  which is refused; for the result of a task nobody submitted, which is not found; and
  for the result of \<open>t1\<close> after a run that completed, which is served from a state whose
  status is \<open>completed\<close>.
\<close>

theorem download_only_completed_witness:
  "''t1'' \<in> dom (active_tasks saved_once) \<and>
   get_task_state saved_once ''t1'' = Inr (Some first_record) \<and>
   status first_record \<noteq> ''completed'' \<and>
   download_file saved_once ''t1'' = HTTPException 400 ''Task is not completed yet'' \<and>
   ''t2'' \<notin> dom (active_tasks saved_once) \<and>
   download_file saved_once ''t2'' = HTTPException 404 ''Task not found'' \<and>
   download_file (snd (process_file quiet_env ''t1'' ''data/in.csv'' [] (submitted full_table))) ''t1''
     = FileResponse ''data/enriched_u_in.csv'' \<and>
   ''data/enriched_u_in.csv''
     \<in> dom (csv_files (snd (process_file quiet_env ''t1'' ''data/in.csv'' [] (submitted full_table))))"
proof -
  let ?w = "snd (process_file quiet_env ''t1'' ''data/in.csv'' [] (submitted full_table))"
  have known: "''t1'' \<in> dom (active_tasks saved_once)"
    and state: "get_task_state saved_once ''t1'' = Inr (Some first_record)"
    and early: "status first_record \<noteq> ''completed''"
    and unknown: "''t2'' \<notin> dom (active_tasks saved_once)"
    by (simp_all add: saved_once_def submitted_def first_record_def status_eval)
  have refused: "download_file saved_once ''t1'' = HTTPException 400 ''Task is not completed yet''"
    using download_only_completed [of saved_once "''t1''" _ first_record] known state early by blast
  have not_found: "download_file saved_once ''t2'' = HTTPException 404 ''Task not found''"
    using download_only_completed [of saved_once "''t2''"] unknown by blast
  have out: "csv_files ?w ''data/enriched_u_in.csv'' \<noteq> None"
    unfolding process_file_def Let_def
    by (simp add: runner_eval crew_eval quiet_env_def submitted_def)
  have served: "download_file ?w ''t1'' = FileResponse ''data/enriched_u_in.csv''"
    using quiet_run_active [of "[]" full_table] out
    by (simp add: download_file_def status_eval quiet_run_files dom_def)
  have "''data/enriched_u_in.csv'' \<in> dom (csv_files ?w)"
    using download_only_completed [of ?w "''t1''" "''data/enriched_u_in.csv''"] served by blast
  then show ?thesis using known state early refused unknown not_found served by blast
qed

section \<open>Retrying when the provider is overloaded\<close>




section \<open>The columns the fallback touches\<close>

text \<open>
  Claim C10, as amended.  The category columns of the fallback are the fixed
  \<open>Category ID\<close> and \<open>Category Label\<close>, whatever list the crew was given.  The frame it
  saves has the columns and the number of rows of its input, and every cell outside those
  two columns is as it was.  Besides those two columns the fallback reads \<open>Cluster ID\<close>,
  by which it groups the rows, and \<open>Product Title\<close>, which it hands to the search tool,
  and no other column: on two tables with the same columns and the same cells in these
  four columns, the passes raise alike, count alike and leave the same category cells.
  And \<open>_apply_enrichments_fallback\<close> does the same for every list of category columns
  held by the crew.
\<close>

theorem fallback_fixed_columns:
  fixes d d' :: "'v::linorder dataframe"
  shows "columns (fallback_table tool d) = columns d \<and>
    length (data (fallback_table tool d)) = length (data d) \<and>
    (\<forall>i c. i < length (data d) \<and> c \<noteq> CATEGORY_ID \<and> c \<noteq> CATEGORY_LABEL
        \<longrightarrow> at_get (fallback_table tool d) i c = at_get d i c) \<and>
    (columns d' = columns d \<and> length (data d') = length (data d) \<and>
     (\<forall>i < length (data d).
        at_get d' i CLUSTER_ID = at_get d i CLUSTER_ID \<and>
        at_get d' i CATEGORY_ID = at_get d i CATEGORY_ID \<and>
        at_get d' i CATEGORY_LABEL = at_get d i CATEGORY_LABEL \<and>
        at_get d' i PRODUCT_TITLE = at_get d i PRODUCT_TITLE)
      \<longrightarrow> fst (fallback_passes tool d') = fst (fallback_passes tool d) \<and>
          enrichment_count (snd (fallback_passes tool d')) = enrichment_count (snd (fallback_passes tool d)) \<and>
          rows_processed (snd (fallback_passes tool d')) = rows_processed (snd (fallback_passes tool d)) \<and>
          (\<forall>i < length (data d).
             at_get (fallback_table tool d') i CATEGORY_ID = at_get (fallback_table tool d) i CATEGORY_ID \<and>
             at_get (fallback_table tool d') i CATEGORY_LABEL
               = at_get (fallback_table tool d) i CATEGORY_LABEL)) \<and>
    apply_enrichments_fallback E (self\<lparr>category_columns := cols\<rparr>) w
      = apply_enrichments_fallback E self w"
proof -
  have frame: "fills_only d (fallback_table tool d)" by (rule fallback_table_fills)
  have 1: "columns (fallback_table tool d) = columns d"
    and 2: "length (data (fallback_table tool d)) = length (data d)"
    using frame by (simp_all add: fills_only_def)
  have 3: "at_get (fallback_table tool d) i c = at_get d i c"
    if "i < length (data d)" "c \<noteq> CATEGORY_ID" "c \<noteq> CATEGORY_LABEL" for i c
    using frame that unfolding fills_only_def by blast
  have 4: "fst (fallback_passes tool d') = fst (fallback_passes tool d) \<and>
          enrichment_count (snd (fallback_passes tool d')) = enrichment_count (snd (fallback_passes tool d)) \<and>
          rows_processed (snd (fallback_passes tool d')) = rows_processed (snd (fallback_passes tool d)) \<and>
          (\<forall>i < length (data d).
             at_get (fallback_table tool d') i CATEGORY_ID = at_get (fallback_table tool d) i CATEGORY_ID \<and>
             at_get (fallback_table tool d') i CATEGORY_LABEL
               = at_get (fallback_table tool d) i CATEGORY_LABEL)"
    if h: "columns d' = columns d" "length (data d') = length (data d)"
      "\<forall>i < length (data d).
        at_get d' i CLUSTER_ID = at_get d i CLUSTER_ID \<and>
        at_get d' i CATEGORY_ID = at_get d i CATEGORY_ID \<and>
        at_get d' i CATEGORY_LABEL = at_get d i CATEGORY_LABEL \<and>
        at_get d' i PRODUCT_TITLE = at_get d i PRODUCT_TITLE"
  proof -
    have "agree d d'" using h by (simp add: agree_def)
    then have a: "fst (fallback_passes tool d') = fst (fallback_passes tool d)"
      and b: "agree_states (snd (fallback_passes tool d)) (snd (fallback_passes tool d'))"
      using agree_fallback_passes [of d d' tool] by simp_all
    have c: "agree (fallback_table tool d) (fallback_table tool d')"
      using b by (simp add: agree_states_def fallback_table_def)
    have "at_get (fallback_table tool d') i CATEGORY_ID = at_get (fallback_table tool d) i CATEGORY_ID \<and>
          at_get (fallback_table tool d') i CATEGORY_LABEL = at_get (fallback_table tool d) i CATEGORY_LABEL"
      if "i < length (data d)" for i
      using agree_cell(2,3) [OF c, of i] that 2 by simp
    then show ?thesis using a b by (simp add: agree_states_def)
  qed
  have 5: "apply_enrichments_fallback E (self\<lparr>category_columns := cols\<rparr>) w
      = apply_enrichments_fallback E self w"
  proof -
    have "input_csv_path (self\<lparr>category_columns := cols\<rparr>) = input_csv_path self"
      and "output_csv_path (self\<lparr>category_columns := cols\<rparr>) = output_csv_path self"
      by simp_all
    then show ?thesis unfolding apply_enrichments_fallback_def by (simp only:)
  qed
  show ?thesis using 1 2 3 4 5 by blast
qed

text \<open>
  The theorem at the scenario table with a column \<open>Merchant ID\<close>: the merchant of row 2 is
  kept; changing the merchants does not change the label row 2 gets; and a crew told to
  enrich \<open>category_name\<close> does what the crew told nothing does.
\<close>

theorem fallback_fixed_columns_witness:
  "columns (with_merchant ''6'') = columns (with_merchant ''5'') \<and>
   length (data (with_merchant ''6'')) = length (data (with_merchant ''5'')) \<and>
   (1::nat) < length (data (with_merchant ''5'')) \<and>
   at_get (fallback_table silent_tool (with_merchant ''5'')) 1 ''Merchant ID'' = Val ''5'' \<and>
   at_get (fallback_table silent_tool (with_merchant ''6'')) 1 CATEGORY_LABEL
     = at_get (fallback_table silent_tool (with_merchant ''5'')) 1 CATEGORY_LABEL \<and>
   apply_enrichments_fallback quiet_env (plain_crew\<lparr>category_columns := [''category_name'']\<rparr>)
       (submitted full_table)
     = apply_enrichments_fallback quiet_env plain_crew (submitted full_table)"
proof -
  let ?d = "with_merchant ''5''" and ?d' = "with_merchant ''6''"
  have cols: "columns ?d' = columns ?d" and len: "length (data ?d') = length (data ?d)"
    and one: "(1::nat) < length (data ?d)"
    and merchant: "at_get ?d 1 ''Merchant ID'' = Val ''5''"
    by (simp_all add: with_merchant_def scenario_def at_get_def)
  have name: "(1::nat) < length (data ?d) \<and> ''Merchant ID'' \<noteq> CATEGORY_ID \<and> ''Merchant ID'' \<noteq> CATEGORY_LABEL"
    using one by simp
  have same: "\<forall>i < length (data ?d).
        at_get ?d' i CLUSTER_ID = at_get ?d i CLUSTER_ID \<and>
        at_get ?d' i CATEGORY_ID = at_get ?d i CATEGORY_ID \<and>
        at_get ?d' i CATEGORY_LABEL = at_get ?d i CATEGORY_LABEL \<and>
        at_get ?d' i PRODUCT_TITLE = at_get ?d i PRODUCT_TITLE"
    by (simp add: with_merchant_def scenario_def at_get_def less_Suc_eq)
  note inst = fallback_fixed_columns [where tool = silent_tool and d = ?d and d' = ?d'
      and E = quiet_env and self = plain_crew and cols = "[''category_name'']"
      and w = "submitted full_table"]
  note frame = inst [THEN conjunct2, THEN conjunct2, THEN conjunct1, rule_format, OF name]
  note reads = inst [THEN conjunct2, THEN conjunct2, THEN conjunct2, THEN conjunct1, THEN mp,
      OF conjI [OF cols conjI [OF len same]]]
  note cells = reads [THEN conjunct2, THEN conjunct2, THEN conjunct2, rule_format, OF one]
  note crew = inst [THEN conjunct2, THEN conjunct2, THEN conjunct2, THEN conjunct2]
  have a: "at_get (fallback_table silent_tool ?d) 1 ''Merchant ID'' = Val ''5''"
    using frame merchant by (simp only:)
  show ?thesis
    by (intro conjI) (rule cols len one a cells [THEN conjunct2] crew)+
qed

text \<open>
  Claim C10 as stated fails for \<open>Product Title\<close>: two tables of one row that have the same
  \<open>Cluster ID\<close>, \<open>Category ID\<close> and \<open>Category Label\<close> and differ in the product title are
  filled differently by a search tool that knows the category of one title only.
\<close>

theorem fallback_reads_title_counterexample:
  "at_get (one_row ''clog'') 0 CLUSTER_ID = at_get (one_row ''boot'') 0 CLUSTER_ID \<and>
   at_get (one_row ''clog'') 0 CATEGORY_ID = at_get (one_row ''boot'') 0 CATEGORY_ID \<and>
   at_get (one_row ''clog'') 0 CATEGORY_LABEL = at_get (one_row ''boot'') 0 CATEGORY_LABEL \<and>
   at_get (fallback_table title_tool (one_row ''boot'')) 0 CATEGORY_ID = Val ''7'' \<and>
   at_get (fallback_table title_tool (one_row ''clog'')) 0 CATEGORY_ID = NaN"
  by (simp add: fallback_table_def fallback_passes_def group_propagation_def group_keys_def
        List.map_filter_def process_cluster_def group_index_def residual_lookup_def residual_row_def
        search_and_fill_def one_row_def title_tool_def at_get_def at_put_def isna_def mk_row_def Let_def)

end
